theory Spec2Isabelle
  imports Main "HOL-Library.AList"
begin

section \<open>JavaScript values and thrown values\<close>

text \<open>
  The engine inspects only a few properties of the values that user code hands to it
  (\<^verbatim>\<open>stageResult?.stop\<close>, \<^verbatim>\<open>stageResult?.action\<close>, \<^verbatim>\<open>recovery.action\<close>,
  \<^verbatim>\<open>error.constructor.name\<close>, \<^verbatim>\<open>error.code\<close>).  A value is a primitive or an
  object, an object being the list of its own properties in insertion order; numbers are
  integers.  The object an association list denotes is \<open>map_of\<close> of it.
\<close>

datatype val =
    VUndefined
  | VNull
  | VBool bool
  | VNum int
  | VStr string
  | VObj "(string \<times> val) list"

text \<open>
  What a \<^verbatim>\<open>throw\<close> raised: \<^verbatim>\<open>null\<close> or \<^verbatim>\<open>undefined\<close> (on which every property
  access fails), or a value with a constructor, of which the engine reads the constructor's
  name, \<^verbatim>\<open>code\<close> and \<^verbatim>\<open>message\<close>.
\<close>

datatype thrown =
    Nullish
  | ErrorObj string val string

definition TypeError :: "string \<Rightarrow> thrown" where
  "TypeError msg = ErrorObj ''TypeError'' VUndefined msg"

text \<open>Truthiness, as \<^verbatim>\<open>if (x)\<close>, \<^verbatim>\<open>!x\<close> and \<^verbatim>\<open>x || y\<close> read it.\<close>

fun truthy :: "val \<Rightarrow> bool" where
  "truthy VUndefined = False"
| "truthy VNull = False"
| "truthy (VBool b) = b"
| "truthy (VNum n) = (n \<noteq> 0)"
| "truthy (VStr s) = (s \<noteq> [])"
| "truthy (VObj kvs) = True"

text \<open>\<^verbatim>\<open>v?.k\<close>: undefined on null and undefined, the property otherwise.\<close>

fun opt_chain :: "val \<Rightarrow> string \<Rightarrow> val" where
  "opt_chain (VObj kvs) k = (case map_of kvs k of None \<Rightarrow> VUndefined | Some v \<Rightarrow> v)"
| "opt_chain v k = VUndefined"

text \<open>
  \<^verbatim>\<open>{...a, ...b}\<close>: every own property of \<open>b\<close> is written to the copy of \<open>a\<close>; a key
  of \<open>a\<close> keeps its place and takes the new value, a new key goes to the end.  (An object
  has one value for each key: \<open>clearjunk\<close> keeps the pair that \<open>map_of\<close> reads.)
\<close>

fun own_props :: "val \<Rightarrow> (string \<times> val) list" where
  "own_props (VObj kvs) = AList.clearjunk kvs"
| "own_props v = []"

definition spread :: "(string \<times> val) list \<Rightarrow> val \<Rightarrow> (string \<times> val) list" where
  "spread a b = fold (\<lambda>(k, v) acc. AList.update k v acc) (own_props b) a"

section \<open>Computations that may throw\<close>

text \<open>
  An \<^verbatim>\<open>async\<close> function is run to completion by \<^verbatim>\<open>await\<close>: it is a function from
  the state before to its outcome, \<open>Inl\<close> the thrown value (a rejected promise) or
  \<open>Inr\<close> the returned one, and the state after.
\<close>

type_synonym ('a, 's) js = "'s \<Rightarrow> (thrown + 'a) \<times> 's"

definition ret :: "'a \<Rightarrow> ('a, 's) js" where
  "ret x s = (Inr x, s)"

definition throw :: "thrown \<Rightarrow> ('a, 's) js" where
  "throw e s = (Inl e, s)"

definition bind :: "('a, 's) js \<Rightarrow> ('a \<Rightarrow> ('b, 's) js) \<Rightarrow> ('b, 's) js" where
  "bind m f s = (case m s of (Inl e, s') \<Rightarrow> (Inl e, s') | (Inr x, s') \<Rightarrow> f x s')"

definition try_catch :: "('a, 's) js \<Rightarrow> (thrown \<Rightarrow> ('a, 's) js) \<Rightarrow> ('a, 's) js" where
  "try_catch m h s = (case m s of (Inl e, s') \<Rightarrow> h e s' | (Inr x, s') \<Rightarrow> (Inr x, s'))"

definition modify :: "('s \<Rightarrow> 's) \<Rightarrow> (unit, 's) js" where
  "modify f s = (Inr (), f s)"

definition gets :: "('s \<Rightarrow> 'a) \<Rightarrow> ('a, 's) js" where
  "gets f s = (Inr (f s), s)"

text \<open>\<^verbatim>\<open>v.k\<close>: a TypeError on null and undefined.\<close>

definition get_prop :: "val \<Rightarrow> string \<Rightarrow> (val, 's) js" where
  "get_prop v k =
     (if v = VUndefined \<or> v = VNull then throw (TypeError ''Cannot read properties'')
      else ret (opt_chain v k))"

section \<open>Plain objects\<close>

text \<open>
  \<^verbatim>\<open>errorHandlers\<close>, \<^verbatim>\<open>recoveryStrategies\<close>, \<^verbatim>\<open>handlers\<close> and the statistics by
  name are plain objects (\<^verbatim>\<open>{}\<close>) read with \<^verbatim>\<open>obj[key]\<close>.  Such an object is the map of
  its own properties; a key that is no own property is looked up in \<^verbatim>\<open>Object.prototype\<close>,
  whose members are these.
\<close>

definition Object_prototype :: "string list" where
  "Object_prototype =
     [''constructor'', ''__defineGetter__'', ''__defineSetter__'', ''hasOwnProperty'',
      ''__lookupGetter__'', ''__lookupSetter__'', ''isPrototypeOf'', ''propertyIsEnumerable'',
      ''toString'', ''valueOf'', ''__proto__'', ''toLocaleString'']"

text \<open>
  What \<^verbatim>\<open>obj[key]\<close> finds: nothing (\<^verbatim>\<open>undefined\<close>), an own property, or the member of
  \<^verbatim>\<open>Object.prototype\<close> of that name (a function; the prototype object itself under
  \<^verbatim>\<open>__proto__\<close>), which is truthy.
\<close>

datatype 'a property =
    Absent
  | Own 'a
  | Inherited string

definition lookup :: "(string \<rightharpoonup> 'a) \<Rightarrow> string \<Rightarrow> 'a property" where
  "lookup obj key =
     (case obj key of
        Some v \<Rightarrow> Own v
      | None \<Rightarrow> if key \<in> set Object_prototype then Inherited key else Absent)"

text \<open>
  \<^verbatim>\<open>obj[key] = v\<close> for an object or a function \<open>v\<close>.  Under the key \<^verbatim>\<open>__proto__\<close> this
  adds no property: it makes \<open>v\<close> the prototype of \<open>obj\<close>.  What \<open>obj\<close> inherits from then
  on is not followed here: the assignment is \<open>None\<close>.
\<close>

definition assign :: "(string \<rightharpoonup> 'a) \<Rightarrow> string \<Rightarrow> 'a \<Rightarrow> (string \<rightharpoonup> 'a) option" where
  "assign obj key v =
     (if key = ''__proto__'' \<and> obj key = None then None else Some (obj(key \<mapsto> v)))"

text \<open>
  \<^verbatim>\<open>obj[key] = v\<close> for a number or a string \<open>v\<close>: under the key \<^verbatim>\<open>__proto__\<close> nothing
  happens.
\<close>

definition assign_primitive :: "(string \<rightharpoonup> 'a) \<Rightarrow> string \<Rightarrow> 'a \<Rightarrow> (string \<rightharpoonup> 'a)" where
  "assign_primitive obj key v =
     (if key = ''__proto__'' \<and> obj key = None then obj else obj(key \<mapsto> v))"

text \<open>
  An entry of the statistics by name, written by \<^verbatim>\<open>obj[key] = (obj[key] || 0) + 1\<close>: a
  count, or, where \<^verbatim>\<open>obj[key]\<close> found an inherited member, the text of that member with
  \<^verbatim>\<open>1\<close> appended (and again at every later write).
\<close>

datatype stat =
    Count nat
  | Text string

text \<open>The text a member of \<^verbatim>\<open>Object.prototype\<close> converts to in \<^verbatim>\<open>member + 1\<close>.\<close>

definition member_text :: "string \<Rightarrow> string" where
  "member_text member =
     (if member = ''__proto__'' then ''[object Object]''
      else if member = ''constructor'' then ''function Object() { [native code] }''
      else ''function '' @ member @ ''() { [native code] }'')"

definition bump :: "(string \<rightharpoonup> stat) \<Rightarrow> string \<Rightarrow> (string \<rightharpoonup> stat)" where
  "bump m k =
     assign_primitive m k
       (case lookup m k of
          Absent \<Rightarrow> Count 1
        | Own (Count c) \<Rightarrow> Count (c + 1)
        | Own (Text t) \<Rightarrow> if t = [] then Count 1 else Text (t @ ''1'')
        | Inherited member \<Rightarrow> Text (member_text member @ ''1''))"

section \<open>The state of one run\<close>

text \<open>The result object of \<^verbatim>\<open>Pipeline.process\<close>.\<close>

record run_result =
  stop :: bool
  metadata :: "(string \<times> val) list"
  actions :: "val list"
  error :: "thrown option"
  errorStage :: "string option"

text \<open>The data of a hook emission: the message, and what the engine adds to it.\<close>

datatype payload =
    P_message
  | P_stage string
  | P_stage_result string val
  | P_stage_error string thrown
  | P_result run_result
  | P_data val

text \<open>
  What a run does, in the order it does it.  The trace is not a variable of the source:
  it records the calls the properties speak of.
\<close>

datatype event =
    Emit string payload
  | Listener string nat
  | ConsoleError string thrown
  | Invoke nat string
  | Return nat string val
  | Throw nat string thrown
  | Sleep int

text \<open>\<^verbatim>\<open>ErrorHandler.errorStats\<close>.\<close>

record error_stats =
  total :: nat
  byType :: "string \<rightharpoonup> stat"
  byStage :: "string \<rightharpoonup> stat"

text \<open>
  \<open>world\<close> is all that user code (stages, hook listeners, custom error handlers) reads
  and writes: the message's own fields, the context, its own closures.
  \<open>message_actions\<close> is \<^verbatim>\<open>message._actions\<close> (\<open>None\<close>: undefined) and \<open>result\<close> the
  local object \<^verbatim>\<open>result\<close> of \<^verbatim>\<open>process\<close>; the engine alone writes them.
\<close>

record 'w state =
  trace :: "event list"
  world :: "'w"
  errorStats :: error_stats
  message_actions :: "val list option"
  result :: run_result

definition log :: "event \<Rightarrow> (unit, 'w state) js" where
  "log e = modify (\<lambda>s. s\<lparr>trace := trace s @ [e]\<rparr>)"

text \<open>User code runs on the world and leaves the rest of the state alone.\<close>

definition run_user :: "('a, 'w) js \<Rightarrow> ('a, 'w state) js" where
  "run_user f s = (case f (world s) of (r, w') \<Rightarrow> (r, s\<lparr>world := w'\<rparr>))"

section \<open>HookManager\<close>

type_synonym 'w listener = "payload \<Rightarrow> (unit, 'w) js"

text \<open>The map \<^verbatim>\<open>this.hooks\<close>, from a hook name to its listeners in registration order.\<close>

type_synonym 'w HookManager = "string \<rightharpoonup> 'w listener list"

definition new_HookManager :: "'w HookManager" where
  "new_HookManager = Map.empty"

text \<open>\<^verbatim>\<open>this.hooks.get(hookName) || []\<close>\<close>

definition callbacks_of :: "'w HookManager \<Rightarrow> string \<Rightarrow> 'w listener list" where
  "callbacks_of hm hookName = (case hm hookName of None \<Rightarrow> [] | Some cbs \<Rightarrow> cbs)"

definition on :: "'w HookManager \<Rightarrow> string \<Rightarrow> 'w listener \<Rightarrow> 'w HookManager" where
  "on hm hookName callback = hm(hookName \<mapsto> callbacks_of hm hookName @ [callback])"

text \<open>
  The loop of \<^verbatim>\<open>emit\<close>; \<open>i\<close> counts the listeners already called, for the trace only.
\<close>

fun emit_loop :: "string \<Rightarrow> nat \<Rightarrow> 'w listener list \<Rightarrow> payload \<Rightarrow> (unit, 'w state) js" where
  "emit_loop hookName i [] data = ret ()"
| "emit_loop hookName i (callback # callbacks) data =
     bind (try_catch
             (bind (log (Listener hookName i)) (\<lambda>_. run_user (callback data)))
             (\<lambda>error. log (ConsoleError hookName error)))
          (\<lambda>_. emit_loop hookName (Suc i) callbacks data)"

definition emit :: "'w HookManager \<Rightarrow> string \<Rightarrow> payload \<Rightarrow> (unit, 'w state) js" where
  "emit hm hookName data =
     bind (log (Emit hookName data))
       (\<lambda>_. emit_loop hookName 0 (callbacks_of hm hookName) data)"

text \<open>
  \<^verbatim>\<open>status[hookName] = callbacks.length\<close> on a new plain object: its own properties (a
  number assigned under \<^verbatim>\<open>__proto__\<close> is dropped).
\<close>

definition getStatus :: "'w HookManager \<Rightarrow> (string \<rightharpoonup> nat)" where
  "getStatus hm =
     (\<lambda>hookName. if hookName = ''__proto__'' then None else map_option length (hm hookName))"

definition clear :: "'w HookManager \<Rightarrow> 'w HookManager" where
  "clear hm = Map.empty"

section \<open>ErrorHandler\<close>

text \<open>
  An entry of \<^verbatim>\<open>recoveryStrategies\<close>: \<^verbatim>\<open>{ strategy, ...options }\<close>, the options being
  \<^verbatim>\<open>maxRetries\<close> and \<^verbatim>\<open>backoffMs\<close>, both numbers when given.
\<close>

record recovery_strategy =
  strategy :: string
  maxRetries :: "int option"
  backoffMs :: "int option"

text \<open>
  The logger is optional (\<^verbatim>\<open>this.logger?.\<close>, \<^verbatim>\<open>context.logger?.\<close>) and nothing it returns
  is used: its calls are left out, here and in the pipeline and the action handler.  (A
  logger, where one is given, is taken to return; \<^verbatim>\<open>process\<close> is taken to be given a
  context object, on which \<^verbatim>\<open>context.logger\<close> can be read.)
\<close>

text \<open>
  The handlers of \<^verbatim>\<open>errorHandlers\<close>: the three methods the constructor registers, bound
  to the handler itself, and the functions of user code.  A handler receives the error, the
  stage name and the attempt number of the context (\<open>None\<close>: no \<^verbatim>\<open>attempt\<close> given).
\<close>

datatype 'w handler =
    HandleStageError
  | HandleDatabaseError
  | HandleValidationError
  | Custom "thrown \<Rightarrow> string \<Rightarrow> nat option \<Rightarrow> (val, 'w) js"

text \<open>The two registries, each the map of its own properties.\<close>

record 'w ErrorHandler =
  errorHandlers :: "string \<rightharpoonup> 'w handler"
  recoveryStrategies :: "string \<rightharpoonup> recovery_strategy"

text \<open>\<^verbatim>\<open>this.errorHandlers[errorType] = handler\<close>\<close>

definition registerErrorHandler ::
  "'w ErrorHandler \<Rightarrow> string \<Rightarrow> 'w handler \<Rightarrow> 'w ErrorHandler option" where
  "registerErrorHandler eh errorType h =
     map_option (\<lambda>m. eh\<lparr>errorHandlers := m\<rparr>) (assign (errorHandlers eh) errorType h)"

text \<open>The constructor: the three registrations, in its order.\<close>

definition new_ErrorHandler :: "'w ErrorHandler" where
  "new_ErrorHandler =
     the (Option.bind
            (Option.bind
               (registerErrorHandler \<lparr>errorHandlers = Map.empty, recoveryStrategies = Map.empty\<rparr>
                  ''StageError'' HandleStageError)
               (\<lambda>eh. registerErrorHandler eh ''DatabaseError'' HandleDatabaseError))
            (\<lambda>eh. registerErrorHandler eh ''ValidationError'' HandleValidationError))"

text \<open>\<^verbatim>\<open>this.recoveryStrategies[stageName] = { strategy, ...options }\<close>\<close>

definition registerRecoveryStrategy ::
  "'w ErrorHandler \<Rightarrow> string \<Rightarrow> string \<Rightarrow> int option \<Rightarrow> int option
     \<Rightarrow> 'w ErrorHandler option" where
  "registerRecoveryStrategy eh stageName strat maxRetries_opt backoffMs_opt =
     map_option (\<lambda>m. eh\<lparr>recoveryStrategies := m\<rparr>)
       (assign (recoveryStrategies eh) stageName
          \<lparr>strategy = strat, maxRetries = maxRetries_opt, backoffMs = backoffMs_opt\<rparr>)"

definition recovery :: "string \<Rightarrow> string \<Rightarrow> val" where
  "recovery a r = VObj [(''action'', VStr a), (''reason'', VStr r)]"

text \<open>\<^verbatim>\<open>x || d\<close> on an optional number: \<open>d\<close> when \<open>x\<close> is absent or 0.\<close>

definition or_default :: "int option \<Rightarrow> int \<Rightarrow> int" where
  "or_default x d = (case x of None \<Rightarrow> d | Some n \<Rightarrow> if n = 0 then d else n)"

text \<open>
  \<^verbatim>\<open>handleStageError\<close>.  Where \<^verbatim>\<open>recoveryStrategies[stageName]\<close> finds an inherited
  member, \<^verbatim>\<open>!strategy\<close> is false and \<^verbatim>\<open>strategy.strategy\<close> is undefined: the
  \<^verbatim>\<open>switch\<close> takes its \<^verbatim>\<open>default\<close>.
\<close>

definition handleStageError ::
  "'w ErrorHandler \<Rightarrow> thrown \<Rightarrow> string \<Rightarrow> nat option \<Rightarrow> (val, 'w state) js" where
  "handleStageError eh err stageName ctx_attempt =
     (case lookup (recoveryStrategies eh) stageName of
        Absent \<Rightarrow> ret (recovery ''stop'' ''no_strategy'')
      | Inherited member \<Rightarrow> ret (recovery ''stop'' ''unknown_strategy'')
      | Own st \<Rightarrow>
          if strategy st = ''stop'' then ret (recovery ''stop'' ''stage_error'')
          else if strategy st = ''skip'' then ret (recovery ''skip'' ''stage_error'')
          else if strategy st = ''retry'' then
            (let attempt = or_default (map_option int ctx_attempt) 1 in
             if attempt < or_default (maxRetries st) 3 then
               (let backoff = or_default (backoffMs st) 100 in
                bind (log (Sleep (backoff * attempt)))
                  (\<lambda>_. ret (recovery ''retry'' ''stage_error'')))
             else ret (recovery ''stop'' ''max_retries''))
          else if strategy st = ''fallback'' then
            ret (VObj [(''action'', VStr ''fallback''), (''reason'', VStr ''stage_error''),
                       (''fallbackValue'', VNull)])
          else ret (recovery ''stop'' ''unknown_strategy''))"

text \<open>\<^verbatim>\<open>error.code\<close> is read, which fails on \<^verbatim>\<open>null\<close> and \<^verbatim>\<open>undefined\<close>.\<close>

definition handleDatabaseError :: "thrown \<Rightarrow> string \<Rightarrow> nat option \<Rightarrow> (val, 'w state) js" where
  "handleDatabaseError err stageName ctx_attempt =
     (case err of
        Nullish \<Rightarrow> throw (TypeError ''Cannot read properties'')
      | ErrorObj errorType code msg \<Rightarrow>
          if code = VStr ''ECONNREFUSED'' then ret (recovery ''stop'' ''db_connection_failed'')
          else if code = VStr ''QUERY_CANCELLED'' then ret (recovery ''skip'' ''db_timeout'')
          else ret (recovery ''skip'' ''db_error''))"

definition handleValidationError :: "thrown \<Rightarrow> string \<Rightarrow> nat option \<Rightarrow> (val, 'w state) js" where
  "handleValidationError err stageName ctx_attempt = ret (recovery ''skip'' ''validation_failed'')"

definition handleUnknownError :: "thrown \<Rightarrow> string \<Rightarrow> nat option \<Rightarrow> (val, 'w state) js" where
  "handleUnknownError err stageName ctx_attempt = ret (recovery ''stop'' ''unknown_error'')"

text \<open>\<^verbatim>\<open>error.constructor.name\<close>.\<close>

definition constructor_name :: "thrown \<Rightarrow> (string, 's) js" where
  "constructor_name err =
     (case err of
        Nullish \<Rightarrow> throw (TypeError ''Cannot read properties'')
      | ErrorObj errorType code msg \<Rightarrow> ret errorType)"

definition updateStats :: "thrown \<Rightarrow> string \<Rightarrow> (unit, 'w state) js" where
  "updateStats err stageName =
     bind (modify (\<lambda>s. s\<lparr>errorStats := (errorStats s)\<lparr>total := total (errorStats s) + 1\<rparr>\<rparr>))
       (\<lambda>_. bind (constructor_name err)
         (\<lambda>errorType. modify (\<lambda>s. s\<lparr>errorStats := (errorStats s)
              \<lparr>byType := bump (byType (errorStats s)) errorType,
               byStage := bump (byStage (errorStats s)) stageName\<rparr>\<rparr>)))"

definition call_handler ::
  "'w ErrorHandler \<Rightarrow> 'w handler \<Rightarrow> thrown \<Rightarrow> string \<Rightarrow> nat option \<Rightarrow> (val, 'w state) js" where
  "call_handler eh h err stageName ctx_attempt =
     (case h of
        HandleStageError \<Rightarrow> handleStageError eh err stageName ctx_attempt
      | HandleDatabaseError \<Rightarrow> handleDatabaseError err stageName ctx_attempt
      | HandleValidationError \<Rightarrow> handleValidationError err stageName ctx_attempt
      | Custom f \<Rightarrow> run_user (f err stageName ctx_attempt))"

text \<open>
  The error as a value, for \<^verbatim>\<open>recovery.action\<close>: of an error the model holds the
  constructor's name, \<^verbatim>\<open>code\<close> and \<^verbatim>\<open>message\<close>.
\<close>

fun error_value :: "thrown \<Rightarrow> val" where
  "error_value Nullish = VUndefined"
| "error_value (ErrorObj errorType code msg) = VObj [(''message'', VStr msg), (''code'', code)]"

text \<open>
  \<^verbatim>\<open>handler(error, stageName, context)\<close> where \<^verbatim>\<open>errorHandlers[errorType]\<close> found a
  member of \<^verbatim>\<open>Object.prototype\<close>, called with \<^verbatim>\<open>this\<close> undefined on an error object:
  \<^verbatim>\<open>Object(error)\<close> is the error, \<^verbatim>\<open>toString\<close> gives the text for undefined, and every
  other member throws a TypeError (\<^verbatim>\<open>__proto__\<close> finds an object, which cannot be
  called).  The texts of the messages are the host's.
\<close>

definition inherited_handler :: "string \<Rightarrow> thrown \<Rightarrow> (val, 's) js" where
  "inherited_handler member err =
     (if member = ''constructor'' then ret (error_value err)
      else if member = ''toString'' then ret (VStr ''[object Undefined]'')
      else if member = ''__proto__'' then throw (TypeError ''handler is not a function'')
      else throw (TypeError ''Cannot convert undefined or null to object''))"

definition handle ::
  "'w ErrorHandler \<Rightarrow> thrown \<Rightarrow> string \<Rightarrow> nat option \<Rightarrow> (val, 'w state) js" where
  "handle eh err stageName ctx_attempt =
     bind (updateStats err stageName)
       (\<lambda>_. case lookup (recoveryStrategies eh) stageName of
               Absent \<Rightarrow>
                 bind (constructor_name err)
                   (\<lambda>errorType.
                      try_catch
                        (case lookup (errorHandlers eh) errorType of
                           Own h \<Rightarrow> call_handler eh h err stageName ctx_attempt
                         | Inherited member \<Rightarrow> inherited_handler member err
                         | Absent \<Rightarrow> handleUnknownError err stageName ctx_attempt)
                        (\<lambda>handlerError. throw handlerError))
             | found \<Rightarrow> handleStageError eh err stageName ctx_attempt)"

definition getStats :: "'w state \<Rightarrow> error_stats" where
  "getStats s = errorStats s"

definition resetStats :: "'w state \<Rightarrow> 'w state" where
  "resetStats s = s\<lparr>errorStats := \<lparr>total = 0, byType = Map.empty, byStage = Map.empty\<rparr>\<rparr>"

section \<open>Pipeline\<close>

text \<open>
  A stage is a function of user code with its \<^verbatim>\<open>name\<close> property (the empty string for
  an anonymous function); \<open>call\<close> is what \<^verbatim>\<open>await stage(message, context)\<close> does.
\<close>

record 'w stage =
  name :: string
  call :: "(val, 'w) js"

text \<open>
  The fields of the class; \<open>None\<close> is \<^verbatim>\<open>null\<close>.  \<open>date_now\<close> is not a field of the
  class: it is the host's \<^verbatim>\<open>Date.now()\<close>, read off the world.
\<close>

record 'w Pipeline =
  stages :: "'w stage list"
  hooks :: "'w HookManager option"
  errorHandler :: "'w ErrorHandler option"
  date_now :: "'w \<Rightarrow> int"

text \<open>\<^verbatim>\<open>new Pipeline()\<close>, on a host with the clock \<open>now\<close>.\<close>

definition new_Pipeline :: "('w \<Rightarrow> int) \<Rightarrow> 'w Pipeline" where
  "new_Pipeline now = \<lparr>stages = [], hooks = None, errorHandler = None, date_now = now\<rparr>"

definition use :: "'w Pipeline \<Rightarrow> 'w stage \<Rightarrow> 'w Pipeline" where
  "use P st = P\<lparr>stages := stages P @ [st]\<rparr>"

definition setHooks :: "'w Pipeline \<Rightarrow> 'w HookManager \<Rightarrow> 'w Pipeline" where
  "setHooks P hookManager = P\<lparr>hooks := Some hookManager\<rparr>"

definition setErrorHandler :: "'w Pipeline \<Rightarrow> 'w ErrorHandler \<Rightarrow> 'w Pipeline" where
  "setErrorHandler P eh = P\<lparr>errorHandler := Some eh\<rparr>"

text \<open>\<^verbatim>\<open>if (this.hooks) { await this.hooks.emit(hookName, data); }\<close>\<close>

definition emit_hook :: "'w Pipeline \<Rightarrow> string \<Rightarrow> payload \<Rightarrow> (unit, 'w state) js" where
  "emit_hook P hookName data =
     (case hooks P of None \<Rightarrow> ret () | Some hm \<Rightarrow> emit hm hookName data)"

text \<open>\<^verbatim>\<open>stage.name || 'anonymous'\<close>\<close>

definition stageName_of :: "'w stage \<Rightarrow> string" where
  "stageName_of st = (if name st = [] then ''anonymous'' else name st)"

text \<open>
  \<^verbatim>\<open>this.errorHandler?.recoveryStrategies[stageName]?.maxRetries ?? 3\<close> (an inherited
  member has no property \<^verbatim>\<open>maxRetries\<close>)
\<close>

definition maxAttempts_of :: "'w Pipeline \<Rightarrow> string \<Rightarrow> int" where
  "maxAttempts_of P stageName =
     (case errorHandler P of
        None \<Rightarrow> 3
      | Some eh \<Rightarrow>
          (case lookup (recoveryStrategies eh) stageName of
             Own st \<Rightarrow> (case maxRetries st of None \<Rightarrow> 3 | Some m \<Rightarrow> m)
           | other \<Rightarrow> 3))"

text \<open>The call of the stage, with its place \<open>i\<close> in \<^verbatim>\<open>this.stages\<close> for the trace.\<close>

definition call_stage :: "nat \<Rightarrow> 'w stage \<Rightarrow> (val, 'w state) js" where
  "call_stage i st =
     bind (log (Invoke i (stageName_of st)))
       (\<lambda>_. try_catch
               (bind (run_user (call st))
                  (\<lambda>stageResult. bind (log (Return i (stageName_of st) stageResult))
                     (\<lambda>_. ret stageResult)))
               (\<lambda>err. bind (log (Throw i (stageName_of st) err)) (\<lambda>_. throw err)))"

text \<open>\<^verbatim>\<open>message._actions.push(action); result.actions.push(action);\<close>\<close>

definition push_action :: "val \<Rightarrow> (unit, 'w state) js" where
  "push_action action s =
     (case message_actions s of
        None \<Rightarrow> throw (TypeError ''Cannot read properties'') s
      | Some acts \<Rightarrow>
          ret () (s\<lparr>message_actions := Some (acts @ [action]),
                   result := (result s)\<lparr>actions := actions (result s) @ [action]\<rparr>\<rparr>))"

definition collect_action :: "'w Pipeline \<Rightarrow> string \<Rightarrow> val \<Rightarrow> (unit, 'w state) js" where
  "collect_action P stageName stageResult =
     (if truthy (opt_chain stageResult ''action'') then
        bind (gets (\<lambda>s. date_now P (world s)))
          (\<lambda>now. push_action
             (VObj [(''action'', opt_chain stageResult ''action''),
                    (''data'', if truthy (opt_chain stageResult ''data'')
                               then opt_chain stageResult ''data'' else VObj []),
                    (''stage'', VStr stageName),
                    (''timestamp'', VNum now)]))
      else ret ())"

text \<open>The body of the \<^verbatim>\<open>try\<close> block: it ends with \<^verbatim>\<open>stageComplete = true\<close>.\<close>

definition try_stage :: "'w Pipeline \<Rightarrow> nat \<Rightarrow> 'w stage \<Rightarrow> (unit, 'w state) js" where
  "try_stage P i st =
     bind (emit_hook P ''before:stage'' (P_stage (stageName_of st)))
       (\<lambda>_. bind (call_stage i st)
         (\<lambda>stageResult. bind (collect_action P (stageName_of st) stageResult)
           (\<lambda>_. bind (emit_hook P ''after:stage'' (P_stage_result (stageName_of st) stageResult))
             (\<lambda>_. if truthy (opt_chain stageResult ''stop'') then
                     modify (\<lambda>s. s\<lparr>result := (result s)
                        \<lparr>stop := True, metadata := spread (metadata (result s)) stageResult\<rparr>\<rparr>)
                   else ret ()))))"

definition stop_with_error :: "thrown \<Rightarrow> string \<Rightarrow> (unit, 'w state) js" where
  "stop_with_error err stageName =
     modify (\<lambda>s. s\<lparr>result := (result s)
        \<lparr>stop := True, error := Some err, errorStage := Some stageName\<rparr>\<rparr>)"

text \<open>
  The body of the \<^verbatim>\<open>catch\<close> block, from \<^verbatim>\<open>attempt++\<close> on: it returns the new values
  of \<^verbatim>\<open>attempt\<close> and \<^verbatim>\<open>stageComplete\<close>.
\<close>

definition catch_stage ::
  "'w Pipeline \<Rightarrow> 'w stage \<Rightarrow> nat \<Rightarrow> thrown \<Rightarrow> (nat \<times> bool, 'w state) js" where
  "catch_stage P st attempt0 err =
     (let stageName = stageName_of st;
          maxAttempts = maxAttempts_of P stageName;
          attempt = attempt0 + 1
      in bind (emit_hook P ''error:stage'' (P_stage_error stageName err))
           (\<lambda>_. case errorHandler P of
                   None \<Rightarrow> ret (attempt, True)
                 | Some eh \<Rightarrow>
                     bind (handle eh err stageName (Some attempt))
                       (\<lambda>recov. bind (get_prop recov ''action'')
                         (\<lambda>action.
                            if action = VStr ''stop'' then
                              bind (stop_with_error err stageName) (\<lambda>_. ret (attempt, True))
                            else if action = VStr ''skip'' then ret (attempt, True)
                            else if action = VStr ''retry'' then
                              (if int attempt \<ge> maxAttempts then
                                 bind (stop_with_error err stageName) (\<lambda>_. ret (attempt, True))
                               else ret (attempt, False))
                            else ret (attempt, True)))))"

text \<open>One turn of \<^verbatim>\<open>while (!stageComplete) { try { ... } catch (error) { ... } }\<close>.\<close>

definition loop_body ::
  "'w Pipeline \<Rightarrow> nat \<Rightarrow> 'w stage \<Rightarrow> nat \<Rightarrow> (nat \<times> bool, 'w state) js" where
  "loop_body P i st attempt =
     try_catch (bind (try_stage P i st) (\<lambda>_. ret (attempt, True)))
               (\<lambda>err. catch_stage P st attempt err)"

lemma catch_stage_again:
  assumes "catch_stage P st attempt err s = (Inr (attempt', False), s')"
  shows "attempt' = attempt + 1 \<and> int attempt' < maxAttempts_of P (stageName_of st)"
  using assms
  by (auto simp: catch_stage_def Let_def bind_def ret_def stop_with_error_def modify_def
           split: option.splits prod.splits sum.splits if_splits)

lemma loop_body_again:
  assumes "loop_body P i st attempt s = (Inr (attempt', False), s')"
  shows "attempt' = attempt + 1 \<and> int attempt' < maxAttempts_of P (stageName_of st)"
  using assms catch_stage_again
  by (fastforce simp: loop_body_def try_catch_def bind_def ret_def
           split: prod.splits sum.splits)

text \<open>
  The \<^verbatim>\<open>while\<close> loop on the pair (\<^verbatim>\<open>attempt\<close>, \<^verbatim>\<open>stageComplete\<close>), which starts at
  \<open>(0, False)\<close>.
\<close>

function stage_while ::
  "'w Pipeline \<Rightarrow> nat \<Rightarrow> 'w stage \<Rightarrow> nat \<times> bool \<Rightarrow> (unit, 'w state) js" where
  "stage_while P i st (attempt, True) s = (Inr (), s)"
| "stage_while P i st (attempt, False) s =
     (case loop_body P i st attempt s of
        (Inl e, s') \<Rightarrow> (Inl e, s')
      | (Inr vars, s') \<Rightarrow> stage_while P i st vars s')"
  by pat_completeness auto
termination
  apply (relation "measure (\<lambda>(P, i, st, (attempt, stageComplete), s).
          if stageComplete then 0
          else 1 + nat (maxAttempts_of P (stageName_of st) - int attempt))")
   apply simp
  apply (auto dest!: loop_body_again [OF sym] split: prod.splits)
  done

text \<open>\<^verbatim>\<open>for (const stage of this.stages) { ...; if (result.stop) break; }\<close>\<close>

fun for_stages :: "'w Pipeline \<Rightarrow> nat \<Rightarrow> 'w stage list \<Rightarrow> (unit, 'w state) js" where
  "for_stages P i [] s = (Inr (), s)"
| "for_stages P i (st # rest) s =
     (case stage_while P i st (0, False) s of
        (Inl e, s') \<Rightarrow> (Inl e, s')
      | (Inr u, s') \<Rightarrow> if stop (result s') then (Inr (), s') else for_stages P (Suc i) rest s')"

definition process :: "'w Pipeline \<Rightarrow> (run_result, 'w state) js" where
  "process P =
     bind (modify (\<lambda>s. s\<lparr>result :=
             \<lparr>stop = False, metadata = [], actions = [], error = None, errorStage = None\<rparr>\<rparr>))
       (\<lambda>_. bind (modify (\<lambda>s. if message_actions s = None then s\<lparr>message_actions := Some []\<rparr>
                               else s))
         (\<lambda>_. bind (emit_hook P ''before:pipeline'' P_message)
           (\<lambda>_. bind (for_stages P 0 (stages P))
             (\<lambda>_. bind (gets result)
               (\<lambda>r. bind (emit_hook P ''after:pipeline'' (P_result r))
                 (\<lambda>_. gets result))))))"

text \<open>\<^verbatim>\<open>inspect()\<close>\<close>

record inspection =
  stageCount :: nat
  stage_names :: "string list"
  hasHooks :: bool
  hookStats :: "(string \<rightharpoonup> nat) option"
  hasErrorHandler :: bool
  inspected_errorStats :: "error_stats option"

definition inspect :: "'w Pipeline \<Rightarrow> 'w state \<Rightarrow> inspection" where
  "inspect P s =
     \<lparr>stageCount = length (stages P),
      stage_names = map stageName_of (stages P),
      hasHooks = (hooks P \<noteq> None),
      hookStats = map_option getStatus (hooks P),
      hasErrorHandler = (errorHandler P \<noteq> None),
      inspected_errorStats = map_option (\<lambda>eh. getStats s) (errorHandler P)\<rparr>"

section \<open>ActionHandler\<close>

text \<open>\<^verbatim>\<open>ActionHandler.stats\<close>, and the state an action handler runs in.\<close>

record action_stats =
  stats_total :: nat
  byAction :: "string \<rightharpoonup> stat"
  failed :: nat

record 'w action_state =
  stats :: action_stats
  action_world :: "'w"

type_synonym 'w action_fn = "val \<Rightarrow> (unit, 'w) js"

text \<open>
  \<^verbatim>\<open>this.handlers\<close>, the map of its own properties, and whether a logger was given (its
  calls are left out, but \<open>handleAll\<close> reads \<^verbatim>\<open>error.message\<close> for it).
\<close>

record 'w ActionHandler =
  handlers :: "string \<rightharpoonup> 'w action_fn"
  logger :: bool

definition new_ActionHandler :: "bool \<Rightarrow> 'w ActionHandler" where
  "new_ActionHandler with_logger = \<lparr>handlers = Map.empty, logger = with_logger\<rparr>"

text \<open>What \<^verbatim>\<open>register\<close> is given as a handler: a function, or some other value.\<close>

datatype 'w handler_arg =
    Function "'w action_fn"
  | NotAFunction val

definition register ::
  "'w ActionHandler \<Rightarrow> string \<Rightarrow> 'w handler_arg \<Rightarrow> (thrown + 'w ActionHandler) option" where
  "register ah actionType h =
     (case h of
        NotAFunction v \<Rightarrow> Some (Inl (ErrorObj ''Error'' VUndefined ''Handler must be a function''))
      | Function f \<Rightarrow>
          map_option (\<lambda>m. Inr (ah\<lparr>handlers := m\<rparr>)) (assign (handlers ah) actionType f))"

definition run_action :: "('a, 'w) js \<Rightarrow> ('a, 'w action_state) js" where
  "run_action f s = (case f (action_world s) of (r, w') \<Rightarrow> (r, s\<lparr>action_world := w'\<rparr>))"

definition action_updateStats :: "string \<Rightarrow> (unit, 'w action_state) js" where
  "action_updateStats actionType =
     modify (\<lambda>s. s\<lparr>stats := (stats s)
        \<lparr>stats_total := stats_total (stats s) + 1,
         byAction := bump (byAction (stats s)) actionType\<rparr>\<rparr>)"

text \<open>
  \<^verbatim>\<open>handle(actionType, data = {}, context)\<close>; the action type is a string, or \<open>None\<close>
  for \<^verbatim>\<open>null\<close> and \<^verbatim>\<open>undefined\<close>.  (The context is part of the world.)
\<close>

fun is_object :: "val \<Rightarrow> bool" where
  "is_object (VObj kvs) = True"
| "is_object v = False"

text \<open>
  \<^verbatim>\<open>await handler(data, context)\<close>: the registered function; or, where
  \<^verbatim>\<open>this.handlers[actionType]\<close> found a member of \<^verbatim>\<open>Object.prototype\<close>, that member
  called with \<^verbatim>\<open>this\<close> undefined.  \<^verbatim>\<open>Object(data)\<close> and \<^verbatim>\<open>toString\<close> return, and so
  does \<^verbatim>\<open>isPrototypeOf\<close> on data that are no object; every other call throws a TypeError.
\<close>

definition inherited_action :: "string \<Rightarrow> val \<Rightarrow> (unit, 's) js" where
  "inherited_action member data =
     (if member = ''constructor'' \<or> member = ''toString''
         \<or> (member = ''isPrototypeOf'' \<and> \<not> is_object data) then ret ()
      else if member = ''__proto__'' then throw (TypeError ''handler is not a function'')
      else throw (TypeError ''Cannot convert undefined or null to object''))"

definition call_action ::
  "'w action_fn property \<Rightarrow> val \<Rightarrow> (unit, 'w action_state) js" where
  "call_action handler data =
     (case handler of
        Own h \<Rightarrow> run_action (h data)
      | Inherited member \<Rightarrow> inherited_action member data
      | Absent \<Rightarrow> throw (TypeError ''handler is not a function''))"

definition action_handle ::
  "'w ActionHandler \<Rightarrow> string option \<Rightarrow> val \<Rightarrow> (bool, 'w action_state) js" where
  "action_handle ah actionType data0 =
     (let data = (if data0 = VUndefined then VObj [] else data0) in
      case actionType of
        None \<Rightarrow> ret False
      | Some a \<Rightarrow>
          if a = [] then ret False
          else (case lookup (handlers ah) a of
                  Absent \<Rightarrow> ret False
                | handler \<Rightarrow>
                    try_catch
                      (bind (call_action handler data)
                         (\<lambda>_. bind (action_updateStats a) (\<lambda>_. ret True)))
                      (\<lambda>err. bind (modify (\<lambda>s. s\<lparr>stats := (stats s)\<lparr>failed := failed (stats s) + 1\<rparr>\<rparr>))
                                (\<lambda>_. throw err))))"

text \<open>
  \<^verbatim>\<open>handleAll\<close> on an array of \<^verbatim>\<open>{ action, data }\<close> records.  With a logger, the
  \<^verbatim>\<open>catch\<close> block reads \<^verbatim>\<open>error.message\<close>, which fails on \<^verbatim>\<open>null\<close> and
  \<^verbatim>\<open>undefined\<close>.
\<close>

fun handleAll ::
  "'w ActionHandler \<Rightarrow> (string option \<times> val) list \<Rightarrow> (unit, 'w action_state) js" where
  "handleAll ah [] = ret ()"
| "handleAll ah ((action, data) # rest) =
     bind (try_catch (bind (action_handle ah action data) (\<lambda>_. ret ()))
             (\<lambda>err. if logger ah \<and> err = Nullish
                    then throw (TypeError ''Cannot read properties'') else ret ()))
       (\<lambda>_. handleAll ah rest)"

section \<open>Reading a run\<close>

text \<open>What the properties below say about a trace and about the state a call leaves.\<close>

fun is_Listener :: "event \<Rightarrow> bool" where
  "is_Listener (Listener h i) = True"
| "is_Listener e = False"

text \<open>
  The events inside a hook emission and inside the error handler: a listener called, a
  listener's exception logged, a backoff wait.  The others are the hook emissions and the
  calls of stages.
\<close>

fun quiet :: "event \<Rightarrow> bool" where
  "quiet (Listener h i) = True"
| "quiet (ConsoleError h e) = True"
| "quiet (Sleep ms) = True"
| "quiet e = False"

text \<open>The world after each listener of the list has run on it, thrown or not.\<close>

definition after_listeners :: "payload \<Rightarrow> 'w listener list \<Rightarrow> 'w \<Rightarrow> 'w" where
  "after_listeners d cbs w = foldl (\<lambda>w cb. snd (cb d w)) w cbs"

definition engine_state_kept :: "'w state \<Rightarrow> 'w state \<Rightarrow> bool" where
  "engine_state_kept s s' \<longleftrightarrow>
     errorStats s' = errorStats s \<and> message_actions s' = message_actions s \<and> result s' = result s"

text \<open>The state after \<^verbatim>\<open>updateStats\<close> counted an error of kind \<open>k\<close> in stage \<open>n\<close>.\<close>

definition counted :: "string \<Rightarrow> string \<Rightarrow> 'w state \<Rightarrow> 'w state" where
  "counted k n s = s\<lparr>errorStats := \<lparr>total = total (errorStats s) + 1,
                                    byType = bump (byType (errorStats s)) k,
                                    byStage = bump (byStage (errorStats s)) n\<rparr>\<rparr>"

text \<open>A state to start from: nothing traced, no error counted, \<^verbatim>\<open>message._actions\<close> unset.\<close>

definition fresh :: "'w \<Rightarrow> 'w state" where
  "fresh w = \<lparr>trace = [], world = w,
              errorStats = \<lparr>total = 0, byType = Map.empty, byStage = Map.empty\<rparr>,
              message_actions = None,
              result = \<lparr>stop = False, metadata = [], actions = [], error = None, errorStage = None\<rparr>\<rparr>"

text \<open>The events of \<open>emit_hook\<close>: none without a hook manager.\<close>

definition hook_tr :: "'w Pipeline \<Rightarrow> string \<Rightarrow> payload \<Rightarrow> event list \<Rightarrow> event list" where
  "hook_tr P h d L = (if hooks P = None then [] else Emit h d # L)"

text \<open>
  The events of one turn of the retry loop of stage \<open>i\<close>, named \<open>n\<close>: the stage returned
  \<open>v\<close>, or it threw \<open>e\<close>.
\<close>

definition returned_turn :: "'w Pipeline \<Rightarrow> nat \<Rightarrow> string \<Rightarrow> val \<Rightarrow> event list \<Rightarrow> bool" where
  "returned_turn P i n v tr \<longleftrightarrow>
     (\<exists>L1 L2. list_all quiet L1 \<and> list_all quiet L2 \<and>
        tr = hook_tr P ''before:stage'' (P_stage n) L1 @ [Invoke i n, Return i n v]
             @ hook_tr P ''after:stage'' (P_stage_result n v) L2)"

definition thrown_turn :: "'w Pipeline \<Rightarrow> nat \<Rightarrow> string \<Rightarrow> thrown \<Rightarrow> event list \<Rightarrow> bool" where
  "thrown_turn P i n e tr \<longleftrightarrow>
     (\<exists>L1 L2 L3. list_all quiet L1 \<and> list_all quiet L2 \<and> list_all quiet L3 \<and>
        tr = hook_tr P ''before:stage'' (P_stage n) L1 @ [Invoke i n, Throw i n e]
             @ hook_tr P ''error:stage'' (P_stage_error n e) L2 @ L3)"

definition stopped_with :: "thrown \<Rightarrow> string \<Rightarrow> run_result \<Rightarrow> run_result" where
  "stopped_with e n r = r\<lparr>stop := True, error := Some e, errorStage := Some n\<rparr>"

text \<open>The fields of the result that say how the run ended are as they were.\<close>

definition verdict_kept :: "'w state \<Rightarrow> 'w state \<Rightarrow> bool" where
  "verdict_kept s s' \<longleftrightarrow>
     stop (result s') = stop (result s) \<and> metadata (result s') = metadata (result s)
     \<and> error (result s') = error (result s) \<and> errorStage (result s') = errorStage (result s)"

text \<open>How a turn that the stage ended by returning \<open>v\<close> leaves the result.\<close>

definition returned_effect :: "val \<Rightarrow> 'w state \<Rightarrow> 'w state \<Rightarrow> bool" where
  "returned_effect v s s' \<longleftrightarrow>
     (if truthy (opt_chain v ''stop'')
      then stop (result s') \<and> metadata (result s') = spread (metadata (result s)) v
           \<and> error (result s') = error (result s)
           \<and> errorStage (result s') = errorStage (result s)
      else verdict_kept s s')"

text \<open>The result \<^verbatim>\<open>process\<close> starts from.\<close>

definition initial_result :: run_result where
  "initial_result = \<lparr>stop = False, metadata = [], actions = [], error = None, errorStage = None\<rparr>"

text \<open>The hook emissions of a trace, in order: the hook name and the data.\<close>

fun emission :: "event \<Rightarrow> (string \<times> payload) list" where
  "emission (Emit h d) = [(h, d)]"
| "emission e = []"

definition emitted :: "event list \<Rightarrow> (string \<times> payload) list" where
  "emitted tr = concat (map emission tr)"

text \<open>The calls of stages: of the stage at place \<open>i\<close>, and of stages named \<open>n\<close>.\<close>

fun invoked_at :: "nat \<Rightarrow> event \<Rightarrow> bool" where
  "invoked_at i (Invoke j n) = (j = i)"
| "invoked_at i e = False"

fun invoked_named :: "string \<Rightarrow> event \<Rightarrow> bool" where
  "invoked_named n (Invoke j m) = (m = n)"
| "invoked_named n e = False"

text \<open>
  The two emissions around one call of a stage: \<open>before:stage\<close>, and then \<open>after:stage\<close>
  with what the stage returned or \<open>error:stage\<close> with what it threw.
\<close>

fun stage_pair :: "string \<times> payload \<Rightarrow> string \<times> payload \<Rightarrow> bool" where
  "stage_pair (h1, P_stage n) (h2, P_stage_result n' v) =
     (h1 = ''before:stage'' \<and> h2 = ''after:stage'' \<and> n' = n)"
| "stage_pair (h1, P_stage n) (h2, P_stage_error n' e) =
     (h1 = ''before:stage'' \<and> h2 = ''error:stage'' \<and> n' = n)"
| "stage_pair x y = False"

fun stage_hooks :: "(string \<times> payload) list \<Rightarrow> bool" where
  "stage_hooks [] = True"
| "stage_hooks [x] = False"
| "stage_hooks (x # y # rest) = (stage_pair x y \<and> stage_hooks rest)"

text \<open>
  The order of the emissions of a run that returned \<open>res\<close>: \<open>before:pipeline\<close>, the pairs
  of the calls of stages, \<open>after:pipeline\<close> with the result.
\<close>

definition hook_order :: "run_result \<Rightarrow> (string \<times> payload) list \<Rightarrow> bool" where
  "hook_order res es =
     (case es of
        [] \<Rightarrow> False
      | x # rest \<Rightarrow> x = (''before:pipeline'', P_message) \<and> rest \<noteq> []
          \<and> last rest = (''after:pipeline'', P_result res) \<and> stage_hooks (butlast rest))"

text \<open>The hook emissions and the calls of stages of a trace, in order.\<close>

definition observed :: "event list \<Rightarrow> event list" where
  "observed tr = filter (\<lambda>e. \<not> quiet e) tr"

text \<open>
  The four events of one call of a stage: \<open>before:stage\<close> is emitted, the stage is
  called, and then either it returned and \<open>after:stage\<close> is emitted with what it returned,
  or it threw and \<open>error:stage\<close> is emitted with what it threw.
\<close>

definition stage_turn :: "event \<Rightarrow> event \<Rightarrow> event \<Rightarrow> event \<Rightarrow> bool" where
  "stage_turn b c out a =
     (case c of
        Invoke i n \<Rightarrow>
          b = Emit ''before:stage'' (P_stage n) \<and>
          (case out of
             Return j m v \<Rightarrow> j = i \<and> m = n \<and> a = Emit ''after:stage'' (P_stage_result n v)
           | Throw j m e \<Rightarrow> j = i \<and> m = n \<and> a = Emit ''error:stage'' (P_stage_error n e)
           | other \<Rightarrow> False)
      | other \<Rightarrow> False)"

fun stage_turns :: "event list \<Rightarrow> bool" where
  "stage_turns [] = True"
| "stage_turns (b # c # out # a # rest) = (stage_turn b c out a \<and> stage_turns rest)"
| "stage_turns es = False"

text \<open>
  The order of the emissions and calls of a run that returned \<open>res\<close>: \<open>before:pipeline\<close>,
  the calls of stages one after the other, each with its two emissions, and
  \<open>after:pipeline\<close> with the result.
\<close>

definition run_order :: "run_result \<Rightarrow> event list \<Rightarrow> bool" where
  "run_order res es =
     (case es of
        [] \<Rightarrow> False
      | x # rest \<Rightarrow> x = Emit ''before:pipeline'' P_message \<and> rest \<noteq> []
          \<and> last rest = Emit ''after:pipeline'' (P_result res) \<and> stage_turns (butlast rest))"

text \<open>
  The order as the specification words it, on the hook names: for each executed stage
  \<open>before:stage\<close>, then optionally \<open>error:stage\<close>, then \<open>after:stage\<close>.
\<close>

fun spec_stage_hooks :: "string list \<Rightarrow> bool" where
  "spec_stage_hooks [] = True"
| "spec_stage_hooks [x] = False"
| "spec_stage_hooks (x # y # rest) =
     (x = ''before:stage'' \<and>
      (y = ''after:stage'' \<and> spec_stage_hooks rest
       \<or> y = ''error:stage'' \<and>
         (case rest of [] \<Rightarrow> False | z # rest' \<Rightarrow> z = ''after:stage'' \<and> spec_stage_hooks rest')))"

definition spec_hook_order :: "string list \<Rightarrow> bool" where
  "spec_hook_order names =
     (case names of
        [] \<Rightarrow> False
      | x # rest \<Rightarrow> x = ''before:pipeline'' \<and> rest \<noteq> []
          \<and> last rest = ''after:pipeline'' \<and> spec_stage_hooks (butlast rest))"

text \<open>The number of \<open>before:stage\<close> emissions for the stage name \<open>n\<close>, and of calls of stages named \<open>n\<close>.\<close>

definition before_stage_count :: "string \<Rightarrow> event list \<Rightarrow> nat" where
  "before_stage_count n tr = length (filter (\<lambda>e. e = Emit ''before:stage'' (P_stage n)) tr)"

definition invocation_count :: "string \<Rightarrow> event list \<Rightarrow> nat" where
  "invocation_count n tr = length (filter (invoked_named n) tr)"

text \<open>
  What holds while the loop over the stages is at place \<open>j\<close>: no stage behind \<open>j\<close> was
  called, the calls are those of the stages of the pipeline, and a stop signal is in the
  trace only when stage \<open>j\<close> returned it and the result took it.
\<close>

definition stop_inv :: "'w Pipeline \<Rightarrow> nat \<Rightarrow> 'w state \<Rightarrow> bool" where
  "stop_inv P j s \<longleftrightarrow>
     (\<forall>k m. Invoke k m \<in> set (trace s) \<longrightarrow>
        k \<le> j \<and> k < length (stages P) \<and> m = stageName_of (stages P ! k))
     \<and> (\<forall>k m v. Return k m v \<in> set (trace s) \<longrightarrow> truthy (opt_chain v ''stop'') \<longrightarrow>
          k = j \<and> stop (result s) \<and> metadata (result s) = spread [] v)
     \<and> (\<not> stop (result s) \<longrightarrow> metadata (result s) = [])"

text \<open>The number of calls of the stage at place \<open>i\<close>.\<close>

definition invocations_at :: "nat \<Rightarrow> event list \<Rightarrow> nat" where
  "invocations_at i tr = length (filter (invoked_at i) tr)"

text \<open>A stage that throws a value with a constructor on every call.\<close>

definition always_throws :: "'w stage \<Rightarrow> bool" where
  "always_throws st \<longleftrightarrow> (\<forall>w. \<exists>k c m w'. call st w = (Inl (ErrorObj k c m), w'))"

text \<open>
  Every handler that user code registered for an error kind returns an object (it does not
  throw, and it does not return \<^verbatim>\<open>null\<close> or \<^verbatim>\<open>undefined\<close>).
\<close>

definition handlers_answer :: "'w ErrorHandler \<Rightarrow> bool" where
  "handlers_answer eh \<longleftrightarrow>
     (\<forall>k f e n a w. errorHandlers eh k = Some (Custom f) \<longrightarrow>
        (\<exists>v w'. f e n a w = (Inr v, w') \<and> v \<noteq> VUndefined \<and> v \<noteq> VNull))"

text \<open>
  An error that the pipeline's error handler resolves through a registered entry or through
  \<open>handleUnknownError\<close>: with an error handler attached, the thrown value is not
  \<^verbatim>\<open>null\<close> or \<^verbatim>\<open>undefined\<close>, and either the lookup of the stage name in
  \<^verbatim>\<open>recoveryStrategies\<close> finds something or the lookup of the error's kind in
  \<^verbatim>\<open>errorHandlers\<close> finds no inherited member.  Without an error handler every thrown
  value is skipped.
\<close>

definition resolvable :: "'w Pipeline \<Rightarrow> 'w stage \<Rightarrow> thrown \<Rightarrow> bool" where
  "resolvable P st e =
     (case errorHandler P of
        None \<Rightarrow> True
      | Some eh \<Rightarrow>
          (case e of
             Nullish \<Rightarrow> False
           | ErrorObj k c m \<Rightarrow>
               (case lookup (recoveryStrategies eh) (stageName_of st) of
                  Absent \<Rightarrow> (case lookup (errorHandlers eh) k of
                               Inherited member \<Rightarrow> False | other \<Rightarrow> True)
                | found \<Rightarrow> True)))"

text \<open>Whatever the stage throws is resolvable.\<close>

definition throws_resolvable :: "'w Pipeline \<Rightarrow> 'w stage \<Rightarrow> bool" where
  "throws_resolvable P st \<longleftrightarrow> (\<forall>w w' e. call st w = (Inl e, w') \<longrightarrow> resolvable P st e)"

text \<open>
  The error fields of the result: an error is recorded only with \<open>stop\<close> set and with
  the name of the stage that threw it.
\<close>

definition error_inv :: "'w state \<Rightarrow> bool" where
  "error_inv s \<longleftrightarrow>
     (\<forall>e. error (result s) = Some e \<longrightarrow>
        stop (result s) \<and> (\<exists>i n. errorStage (result s) = Some n \<and> Throw i n e \<in> set (trace s)))
     \<and> (error (result s) = None \<longleftrightarrow> errorStage (result s) = None)"

text \<open>The stage with the name \<open>anonymous\<close> written out when it has none.\<close>

definition anonymous_named :: "'w stage \<Rightarrow> 'w stage" where
  "anonymous_named st = (if name st = [] then st\<lparr>name := ''anonymous''\<rparr> else st)"

section \<open>Example configurations\<close>

text \<open>
  The runs the properties below are tried on.  The world counts the calls of stages; the
  clock stands still.
\<close>

definition throwing :: "string \<Rightarrow> string \<Rightarrow> nat stage" where
  "throwing n msg = \<lparr>name = n, call = (\<lambda>w. (Inl (ErrorObj ''Error'' VUndefined msg), Suc w))\<rparr>"

definition returning :: "string \<Rightarrow> val \<Rightarrow> nat stage" where
  "returning n v = \<lparr>name = n, call = (\<lambda>w. (Inr v, Suc w))\<rparr>"

definition pipeline_of ::
  "nat stage list \<Rightarrow> nat HookManager option \<Rightarrow> nat ErrorHandler option \<Rightarrow> nat Pipeline" where
  "pipeline_of sts hm eh = \<lparr>stages = sts, hooks = hm, errorHandler = eh, date_now = (\<lambda>w. 0)\<rparr>"

text \<open>\<^verbatim>\<open>{ stop: true, reason: 'blocked' }\<close>\<close>

definition blocked :: val where
  "blocked = VObj [(''stop'', VBool True), (''reason'', VStr ''blocked'')]"

text \<open>
  A stage that throws (skipped: no error handler), a stage that returns the stop signal, a
  third stage; hooks attached.
\<close>

definition blocking :: "nat Pipeline" where
  "blocking =
     pipeline_of [throwing ''boom'' ''x'', returning ''s1'' blocked, returning ''s2'' VUndefined]
       (Some new_HookManager) None"

text \<open>The stage \<open>flakey\<close>, which always throws, with the strategy \<open>retry\<close>.\<close>

definition retrying :: "int option \<Rightarrow> nat Pipeline" where
  "retrying m =
     pipeline_of [throwing ''flakey'' ''flake''] (Some new_HookManager)
       (registerRecoveryStrategy new_ErrorHandler ''flakey'' ''retry'' m (Some 0))"

text \<open>The same behind a stage that returns, with \<^verbatim>\<open>maxRetries: 3\<close>.\<close>

definition retrying_later :: "nat Pipeline" where
  "retrying_later =
     pipeline_of [returning ''ok'' VUndefined, throwing ''flakey'' ''flake'']
       (Some new_HookManager)
       (registerRecoveryStrategy new_ErrorHandler ''flakey'' ''retry'' (Some 3) (Some 0))"

text \<open>One stage that throws; hooks attached, no error handler.\<close>

definition hooked_boom :: "nat Pipeline" where
  "hooked_boom = pipeline_of [throwing ''boom'' ''x''] (Some new_HookManager) None"

text \<open>
  One stage that throws an \<open>Error\<close>, and an error handler with a handler of user code
  registered for that kind, which answers \<open>stop\<close>.
\<close>

definition answering_handler :: "nat handler" where
  "answering_handler = Custom (\<lambda>e n a w. (Inr (recovery ''stop'' ''custom''), w))"

definition custom_boom :: "nat Pipeline" where
  "custom_boom =
     pipeline_of [throwing ''boom'' ''x''] None
       (registerErrorHandler new_ErrorHandler ''Error'' answering_handler)"

text \<open>
  The same with a handler of user code registered for the kind \<open>Error\<close>, which throws
  the error it is given.
\<close>

definition rethrowing_handler :: "nat handler" where
  "rethrowing_handler = Custom (\<lambda>e n a w. (Inl e, w))"

definition unhandled_boom :: "nat Pipeline" where
  "unhandled_boom =
     pipeline_of [throwing ''boom'' ''x''] None
       (registerErrorHandler new_ErrorHandler ''Error'' rethrowing_handler)"

text \<open>Two stages without a name that throw, and the strategy \<open>skip\<close> for \<open>anonymous\<close>.\<close>

definition unnamed_pair :: "nat Pipeline" where
  "unnamed_pair =
     pipeline_of [throwing [] ''a'', throwing [] ''b''] (Some new_HookManager)
       (registerRecoveryStrategy new_ErrorHandler ''anonymous'' ''skip'' None None)"

text \<open>
  Listeners A, B, C registered in this order on \<open>ev\<close>, each writing its letter to the
  world, B throwing after it wrote.
\<close>

definition listener_A :: "string listener" where
  "listener_A d w = (Inr (), w @ ''A'')"

definition listener_B :: "string listener" where
  "listener_B d w = (Inl (ErrorObj ''Error'' VUndefined ''oops''), w @ ''B'')"

definition listener_C :: "string listener" where
  "listener_C d w = (Inr (), w @ ''C'')"

text \<open>
  A handler \<open>notify\<close> that appends the data it is given to the world, and a handler
  \<open>boom\<close> that throws.
\<close>

definition demo_actions :: "val list ActionHandler" where
  "demo_actions =
     \<lparr>handlers = [''notify'' \<mapsto> (\<lambda>d w. (Inr (), w @ [d])),
                   ''boom'' \<mapsto> (\<lambda>d w. (Inl (ErrorObj ''Error'' VUndefined ''boom''), w))],
      logger = False\<rparr>"

definition no_actions_yet :: "val list action_state" where
  "no_actions_yet =
     \<lparr>stats = \<lparr>stats_total = 0, byAction = Map.empty, failed = 0\<rparr>, action_world = []\<rparr>"

section \<open>Evaluating the examples\<close>

lemmas js_defs = bind_def ret_def throw_def try_catch_def modify_def gets_def log_def run_user_def
  get_prop_def
lemmas obj_defs = lookup_def assign_def assign_primitive_def Object_prototype_def member_text_def
lemmas eh_defs = handle_def updateStats_def constructor_name_def handleStageError_def
  or_default_def recovery_def registerRecoveryStrategy_def new_ErrorHandler_def
  registerErrorHandler_def call_handler_def handleDatabaseError_def handleValidationError_def
  handleUnknownError_def inherited_handler_def bump_def obj_defs
lemmas pl_defs = process_def emit_hook_def emit_def new_HookManager_def callbacks_of_def
  loop_body_def try_stage_def call_stage_def stageName_of_def catch_stage_def maxAttempts_of_def
  stop_with_error_def collect_action_def push_action_def fresh_def spread_def Let_def
lemmas ex_defs = throwing_def returning_def pipeline_of_def blocked_def blocking_def retrying_def
  hooked_boom_def rethrowing_handler_def unhandled_boom_def unnamed_pair_def
  answering_handler_def custom_boom_def retrying_later_def

section \<open>Plain objects: what a lookup finds\<close>

lemma lookup_Own [simp]: "obj key = Some v \<Longrightarrow> lookup obj key = Own v"
  by (simp add: lookup_def)

lemma lookup_Own_iff: "lookup obj key = Own v \<longleftrightarrow> obj key = Some v"
  by (simp add: lookup_def split: option.splits)

lemma lookup_Absent_iff:
  "lookup obj key = Absent \<longleftrightarrow> obj key = None \<and> key \<notin> set Object_prototype"
  by (simp add: lookup_def split: option.splits)

lemma lookup_Inherited_iff:
  "lookup obj key = Inherited member \<longleftrightarrow>
     obj key = None \<and> key \<in> set Object_prototype \<and> member = key"
  by (auto simp: lookup_def split: option.splits)

lemma assign_lookup:
  "assign obj key v = Some obj' \<Longrightarrow> lookup obj' key = Own v"
  by (auto simp: assign_def split: if_splits)

lemma new_ErrorHandler_registry:
  "errorHandlers (new_ErrorHandler :: 'w ErrorHandler) =
     [''StageError'' \<mapsto> HandleStageError, ''DatabaseError'' \<mapsto> HandleDatabaseError,
      ''ValidationError'' \<mapsto> HandleValidationError]"
  "recoveryStrategies (new_ErrorHandler :: 'w ErrorHandler) = Map.empty"
  by (simp_all add: new_ErrorHandler_def registerErrorHandler_def assign_def)

section \<open>ErrorHandler: what decides the recovery\<close>

lemma updateStats_ErrorObj:
  "updateStats (ErrorObj k c m) n s = (Inr (), counted k n s)"
  by (simp add: updateStats_def bind_def modify_def constructor_name_def ret_def counted_def)

lemma updateStats_Nullish:
  "updateStats Nullish n s =
     (Inl (TypeError ''Cannot read properties''),
      s\<lparr>errorStats := (errorStats s)\<lparr>total := total (errorStats s) + 1\<rparr>\<rparr>)"
  by (simp add: updateStats_def bind_def modify_def constructor_name_def throw_def)

lemma handle_found:
  assumes "lookup (recoveryStrategies eh) n \<noteq> Absent"
  shows "handle eh (ErrorObj k c m) n a s = handleStageError eh (ErrorObj k c m) n a (counted k n s)"
  using assms
  by (cases "lookup (recoveryStrategies eh) n")
     (simp_all add: handle_def bind_def updateStats_ErrorObj)

lemma handle_Absent:
  assumes "lookup (recoveryStrategies eh) n = Absent"
  shows "handle eh (ErrorObj k c m) n a s =
     (case lookup (errorHandlers eh) k of
        Own h \<Rightarrow> call_handler eh h (ErrorObj k c m) n a (counted k n s)
      | Inherited member \<Rightarrow> inherited_handler member (ErrorObj k c m) (counted k n s)
      | Absent \<Rightarrow> handleUnknownError (ErrorObj k c m) n a (counted k n s))"
  using assms
  by (cases "lookup (errorHandlers eh) k")
     (auto simp: handle_def bind_def updateStats_ErrorObj constructor_name_def ret_def
        try_catch_def throw_def split: prod.splits sum.splits)

lemma handleStageError_answer:
  assumes "recoveryStrategies eh n = Some st"
  shows "fst (handleStageError eh e n a s) =
     Inr (if strategy st = ''stop'' then recovery ''stop'' ''stage_error''
          else if strategy st = ''skip'' then recovery ''skip'' ''stage_error''
          else if strategy st = ''retry'' then
            (if or_default (map_option int a) 1 < or_default (maxRetries st) 3
             then recovery ''retry'' ''stage_error'' else recovery ''stop'' ''max_retries'')
          else if strategy st = ''fallback'' then
            VObj [(''action'', VStr ''fallback''), (''reason'', VStr ''stage_error''),
                  (''fallbackValue'', VNull)]
          else recovery ''stop'' ''unknown_strategy'')"
  using assms
  by (simp add: handleStageError_def ret_def bind_def log_def modify_def Let_def)

lemma handleStageError_frame:
  "fst (handleStageError eh e n a s) = fst (handleStageError (eh\<lparr>errorHandlers := H\<rparr>) e' n a s')"
  "world (snd (handleStageError eh e n a s)) = world s"
  by (auto simp: handleStageError_def ret_def bind_def log_def modify_def Let_def
        split: property.splits)

text \<open>
  C5.  When a recovery strategy is registered for the stage name, the answer of \<open>handle\<close>
  is the one the strategy gives (\<open>stop\<close>, \<open>skip\<close>, \<open>retry\<close> while the attempt number is
  below \<^verbatim>\<open>maxRetries || 3\<close> and \<open>stop\<close> from then on, \<open>fallback\<close>, and \<open>stop\<close> for any
  other word), whatever the error's kind, code and message.  Whenever the lookup of the
  stage name in \<^verbatim>\<open>recoveryStrategies\<close> finds something, \<open>handle\<close> counts the error and
  answers with \<open>handleStageError\<close>: the answer does not depend on the error or on
  \<^verbatim>\<open>errorHandlers\<close>, and no handler of user code runs.  So the handler of the error's kind
  is looked up (\<open>handleUnknownError\<close> when there is none) only when the lookup of the stage
  name finds nothing, and then it is.
\<close>

theorem strategy_precedes_kind:
  "(recoveryStrategies eh n = Some st \<longrightarrow>
      fst (handle eh (ErrorObj k c m) n a s) =
        Inr (if strategy st = ''stop'' then recovery ''stop'' ''stage_error''
             else if strategy st = ''skip'' then recovery ''skip'' ''stage_error''
             else if strategy st = ''retry'' then
               (if or_default (map_option int a) 1 < or_default (maxRetries st) 3
                then recovery ''retry'' ''stage_error'' else recovery ''stop'' ''max_retries'')
             else if strategy st = ''fallback'' then
               VObj [(''action'', VStr ''fallback''), (''reason'', VStr ''stage_error''),
                     (''fallbackValue'', VNull)]
             else recovery ''stop'' ''unknown_strategy''))
   \<and> (lookup (recoveryStrategies eh) n \<noteq> Absent \<longrightarrow>
      handle eh (ErrorObj k c m) n a s = handleStageError eh (ErrorObj k c m) n a (counted k n s)
      \<and> fst (handle eh (ErrorObj k c m) n a s)
          = fst (handle (eh\<lparr>errorHandlers := H\<rparr>) (ErrorObj k' c' m') n a s)
      \<and> world (snd (handle eh (ErrorObj k c m) n a s)) = world s)
   \<and> (lookup (recoveryStrategies eh) n = Absent \<longrightarrow>
      handle eh (ErrorObj k c m) n a s =
        (case lookup (errorHandlers eh) k of
           Own h \<Rightarrow> call_handler eh h (ErrorObj k c m) n a (counted k n s)
         | Inherited member \<Rightarrow> inherited_handler member (ErrorObj k c m) (counted k n s)
         | Absent \<Rightarrow> handleUnknownError (ErrorObj k c m) n a (counted k n s)))"
proof (intro conjI impI)
  assume reg: "recoveryStrategies eh n = Some st"
  then have "lookup (recoveryStrategies eh) n \<noteq> Absent" by simp
  from handle_found [OF this] handleStageError_answer [OF reg]
  show "fst (handle eh (ErrorObj k c m) n a s) =
        Inr (if strategy st = ''stop'' then recovery ''stop'' ''stage_error''
             else if strategy st = ''skip'' then recovery ''skip'' ''stage_error''
             else if strategy st = ''retry'' then
               (if or_default (map_option int a) 1 < or_default (maxRetries st) 3
                then recovery ''retry'' ''stage_error'' else recovery ''stop'' ''max_retries'')
             else if strategy st = ''fallback'' then
               VObj [(''action'', VStr ''fallback''), (''reason'', VStr ''stage_error''),
                     (''fallbackValue'', VNull)]
             else recovery ''stop'' ''unknown_strategy'')"
    by simp
next
  assume found: "lookup (recoveryStrategies eh) n \<noteq> Absent"
  then have found': "lookup (recoveryStrategies (eh\<lparr>errorHandlers := H\<rparr>)) n \<noteq> Absent" by simp
  show "handle eh (ErrorObj k c m) n a s = handleStageError eh (ErrorObj k c m) n a (counted k n s)"
    by (rule handle_found [OF found])
  show "fst (handle eh (ErrorObj k c m) n a s)
          = fst (handle (eh\<lparr>errorHandlers := H\<rparr>) (ErrorObj k' c' m') n a s)"
    unfolding handle_found [OF found] handle_found [OF found']
    by (rule handleStageError_frame)
  show "world (snd (handle eh (ErrorObj k c m) n a s)) = world s"
    unfolding handle_found [OF found] by (simp add: handleStageError_frame counted_def)
next
  assume "lookup (recoveryStrategies eh) n = Absent"
  then show "handle eh (ErrorObj k c m) n a s =
        (case lookup (errorHandlers eh) k of
           Own h \<Rightarrow> call_handler eh h (ErrorObj k c m) n a (counted k n s)
         | Inherited member \<Rightarrow> inherited_handler member (ErrorObj k c m) (counted k n s)
         | Absent \<Rightarrow> handleUnknownError (ErrorObj k c m) n a (counted k n s))"
    by (rule handle_Absent)
qed

text \<open>
  A stage \<open>load\<close> with the strategy \<open>skip\<close>: a \<open>DatabaseError\<close> with code
  \<open>ECONNREFUSED\<close> (which the kind's handler would stop on) is skipped.  With the strategy
  \<open>retry\<close> and \<^verbatim>\<open>maxRetries: 2\<close> the first attempt is answered by \<open>retry\<close> and the
  second by \<open>stop\<close>.  Without a strategy the kind's handler answers.
\<close>

theorem strategy_precedes_kind_witness:
  "registerRecoveryStrategy (new_ErrorHandler :: nat ErrorHandler) ''load'' ''skip'' None None
     = Some (new_ErrorHandler\<lparr>recoveryStrategies :=
               [''load'' \<mapsto> \<lparr>strategy = ''skip'', maxRetries = None, backoffMs = None\<rparr>]\<rparr>)
   \<and> fst (handle (new_ErrorHandler\<lparr>recoveryStrategies :=
               [''load'' \<mapsto> \<lparr>strategy = ''skip'', maxRetries = None, backoffMs = None\<rparr>]\<rparr>)
          (ErrorObj ''DatabaseError'' (VStr ''ECONNREFUSED'') ''refused'') ''load'' (Some 1)
          (fresh (0::nat)))
     = Inr (recovery ''skip'' ''stage_error'')
   \<and> map (\<lambda>attempt.
        fst (handle (new_ErrorHandler\<lparr>recoveryStrategies :=
               [''load'' \<mapsto> \<lparr>strategy = ''retry'', maxRetries = Some 2, backoffMs = None\<rparr>]\<rparr>)
          (ErrorObj ''DatabaseError'' (VStr ''ECONNREFUSED'') ''refused'') ''load'' (Some attempt)
          (fresh (0::nat)))) [1, 2]
     = [Inr (recovery ''retry'' ''stage_error''), Inr (recovery ''stop'' ''max_retries'')]
   \<and> fst (handle new_ErrorHandler
          (ErrorObj ''DatabaseError'' (VStr ''ECONNREFUSED'') ''refused'') ''load'' (Some 1)
          (fresh (0::nat)))
     = Inr (recovery ''stop'' ''db_connection_failed'')"
proof -
  let ?skip = "\<lparr>strategy = ''skip'', maxRetries = None, backoffMs = None\<rparr>"
  let ?retry = "\<lparr>strategy = ''retry'', maxRetries = Some 2, backoffMs = None\<rparr>"
  let ?e = "ErrorObj ''DatabaseError'' (VStr ''ECONNREFUSED'') ''refused''"
  have reg: "registerRecoveryStrategy (new_ErrorHandler :: nat ErrorHandler) ''load'' ''skip'' None None
     = Some (new_ErrorHandler\<lparr>recoveryStrategies := [''load'' \<mapsto> ?skip]\<rparr>)"
    by (simp add: registerRecoveryStrategy_def assign_def new_ErrorHandler_registry)
  have none: "lookup (recoveryStrategies (new_ErrorHandler :: nat ErrorHandler)) ''load'' = Absent"
    by (simp add: new_ErrorHandler_registry lookup_def Object_prototype_def)
  have db: "lookup (errorHandlers (new_ErrorHandler :: nat ErrorHandler)) ''DatabaseError''
      = Own HandleDatabaseError"
    by (simp add: new_ErrorHandler_registry)
  from strategy_precedes_kind
    [of "new_ErrorHandler\<lparr>recoveryStrategies := [''load'' \<mapsto> ?skip]\<rparr>" "''load''" ?skip
        "''DatabaseError''" "VStr ''ECONNREFUSED''" "''refused''" "Some 1" "fresh (0::nat)",
     THEN conjunct1]
  have 1: "fst (handle (new_ErrorHandler\<lparr>recoveryStrategies := [''load'' \<mapsto> ?skip]\<rparr>) ?e ''load''
      (Some 1) (fresh (0::nat))) = Inr (recovery ''skip'' ''stage_error'')"
    by simp
  have 2: "fst (handle (new_ErrorHandler\<lparr>recoveryStrategies := [''load'' \<mapsto> ?retry]\<rparr>) ?e ''load''
      (Some attempt) (fresh (0::nat))) =
      Inr (if int attempt < 2 \<and> attempt \<noteq> 0 \<or> attempt = 0
           then recovery ''retry'' ''stage_error'' else recovery ''stop'' ''max_retries'')" for attempt
    using strategy_precedes_kind
    [of "new_ErrorHandler\<lparr>recoveryStrategies := [''load'' \<mapsto> ?retry]\<rparr>" "''load''" ?retry
        "''DatabaseError''" "VStr ''ECONNREFUSED''" "''refused''" "Some attempt" "fresh (0::nat)",
     THEN conjunct1]
    by (auto simp: or_default_def)
  from strategy_precedes_kind
    [of "new_ErrorHandler :: nat ErrorHandler" "''load''" undefined
        "''DatabaseError''" "VStr ''ECONNREFUSED''" "''refused''" "Some 1" "fresh (0::nat)",
     THEN conjunct2, THEN conjunct2]
    none db
  have 3: "fst (handle new_ErrorHandler ?e ''load'' (Some 1) (fresh (0::nat)))
      = Inr (recovery ''stop'' ''db_connection_failed'')"
    by (simp add: call_handler_def handleDatabaseError_def ret_def)
  from reg 1 2 3 show ?thesis by simp
qed

section \<open>ErrorHandler: the handlers of the error kinds\<close>

text \<open>
  Where the lookup of the stage name finds nothing: a \<open>DatabaseError\<close> (its built-in
  handler still registered) is answered by stop/db_connection_failed on code
  \<open>ECONNREFUSED\<close>, skip/db_timeout on code \<open>QUERY_CANCELLED\<close> and skip/db_error on any
  other code; an error for whose kind the lookup finds nothing by stop/unknown_error.
\<close>

lemma kind_dispatch_table:
  assumes "lookup (recoveryStrategies eh) n = Absent"
  shows "(errorHandlers eh ''DatabaseError'' = Some HandleDatabaseError \<longrightarrow>
           fst (handle eh (ErrorObj ''DatabaseError'' c m) n a s) =
             Inr (if c = VStr ''ECONNREFUSED'' then recovery ''stop'' ''db_connection_failed''
                  else if c = VStr ''QUERY_CANCELLED'' then recovery ''skip'' ''db_timeout''
                  else recovery ''skip'' ''db_error''))
       \<and> (lookup (errorHandlers eh) k = Absent \<longrightarrow>
           fst (handle eh (ErrorObj k c m) n a s) = Inr (recovery ''stop'' ''unknown_error''))"
  by (simp add: handle_Absent [OF assms] call_handler_def handleDatabaseError_def
      handleUnknownError_def ret_def)

text \<open>
  C6 does not hold of every name.  The registries are plain objects, and a name that
  \<^verbatim>\<open>Object.prototype\<close> has is found in them without being registered.  With nothing but
  the built-in handlers registered: for the stage name \<open>constructor\<close>, a \<open>DatabaseError\<close>
  with code \<open>ECONNREFUSED\<close> is answered by stop/unknown_strategy, not by
  stop/db_connection_failed; an error of the kind \<open>valueOf\<close>, which no one registered, is
  not answered by stop/unknown_error: \<open>handle\<close> throws a TypeError; and for the kind
  \<open>toString\<close> it returns a string.
\<close>

theorem builtin_dispatch_inherited_names:
  "recoveryStrategies (new_ErrorHandler :: nat ErrorHandler) ''constructor'' = None
   \<and> fst (handle new_ErrorHandler (ErrorObj ''DatabaseError'' (VStr ''ECONNREFUSED'') ''refused'')
            ''constructor'' None (fresh (0::nat)))
       = Inr (recovery ''stop'' ''unknown_strategy'')
   \<and> errorHandlers (new_ErrorHandler :: nat ErrorHandler) ''valueOf'' = None
   \<and> fst (handle new_ErrorHandler (ErrorObj ''valueOf'' VUndefined ''x'') ''load'' None
            (fresh (0::nat)))
       = Inl (TypeError ''Cannot convert undefined or null to object'')
   \<and> errorHandlers (new_ErrorHandler :: nat ErrorHandler) ''toString'' = None
   \<and> fst (handle new_ErrorHandler (ErrorObj ''toString'' VUndefined ''x'') ''load'' None
            (fresh (0::nat)))
       = Inr (VStr ''[object Undefined]'')"
proof -
  have s: "lookup (recoveryStrategies (new_ErrorHandler :: nat ErrorHandler)) ''constructor''
      = Inherited ''constructor''"
    "lookup (recoveryStrategies (new_ErrorHandler :: nat ErrorHandler)) ''load'' = Absent"
    by (simp_all add: new_ErrorHandler_registry lookup_def Object_prototype_def)
  have k: "lookup (errorHandlers (new_ErrorHandler :: nat ErrorHandler)) ''valueOf''
      = Inherited ''valueOf''"
    "lookup (errorHandlers (new_ErrorHandler :: nat ErrorHandler)) ''toString''
      = Inherited ''toString''"
    by (simp_all add: new_ErrorHandler_registry lookup_def Object_prototype_def)
  have "fst (handle new_ErrorHandler (ErrorObj ''DatabaseError'' (VStr ''ECONNREFUSED'') ''refused'')
            ''constructor'' None (fresh (0::nat)))
       = Inr (recovery ''stop'' ''unknown_strategy'')"
    by (simp add: handle_found s handleStageError_def ret_def)
  moreover have "fst (handle new_ErrorHandler (ErrorObj ''valueOf'' VUndefined ''x'') ''load'' None
            (fresh (0::nat)))
       = Inl (TypeError ''Cannot convert undefined or null to object'')"
    by (simp add: handle_Absent s k inherited_handler_def throw_def)
  moreover have "fst (handle new_ErrorHandler (ErrorObj ''toString'' VUndefined ''x'') ''load'' None
            (fresh (0::nat)))
       = Inr (VStr ''[object Undefined]'')"
    by (simp add: handle_Absent s k inherited_handler_def ret_def)
  ultimately show ?thesis by (simp add: new_ErrorHandler_registry)
qed

section \<open>HookManager: every listener runs\<close>

lemma listener_step:
  "\<exists>s1. try_catch (bind (log (Listener h k)) (\<lambda>_. run_user (cb d)))
               (\<lambda>err. log (ConsoleError h err)) s = (Inr (), s1)
     \<and> trace s1 = trace s @ Listener h k #
           (case fst (cb d (world s)) of Inl e \<Rightarrow> [ConsoleError h e] | Inr u \<Rightarrow> [])
     \<and> world s1 = snd (cb d (world s)) \<and> engine_state_kept s s1"
  by (cases "cb d (world s)"; cases "fst (cb d (world s))")
     (simp_all add: bind_def try_catch_def log_def modify_def run_user_def engine_state_kept_def)

lemma emit_loop_spec:
  "\<exists>tr s'. emit_loop h k cbs d s = (Inr (), s')
     \<and> trace s' = trace s @ tr \<and> world s' = after_listeners d cbs (world s)
     \<and> engine_state_kept s s'
     \<and> filter is_Listener tr = map (Listener h) [k..<k + length cbs]
     \<and> (list_all quiet tr)
     \<and> (\<forall>i<length cbs. \<forall>e. fst ((cbs ! i) d (after_listeners d (take i cbs) (world s))) = Inl e \<longrightarrow>
           (\<exists>pre post. tr = pre @ Listener h (k + i) # ConsoleError h e # post))"
proof (induction cbs arbitrary: k s)
  case Nil
  show ?case
    by (intro exI [of _ "[]"] exI [of _ s]) (simp add: ret_def after_listeners_def engine_state_kept_def)
next
  case (Cons cb cbs)
  define ev where "ev = (case fst (cb d (world s)) of Inl e \<Rightarrow> [ConsoleError h e] | Inr u \<Rightarrow> [])"
  from listener_step [of h k cb d s] obtain s1 where
    first: "try_catch (bind (log (Listener h k)) (\<lambda>_. run_user (cb d)))
               (\<lambda>err. log (ConsoleError h err)) s = (Inr (), s1)"
    and tr1: "trace s1 = trace s @ Listener h k # ev"
    and w1: "world s1 = snd (cb d (world s))"
    and kept1: "engine_state_kept s s1"
    unfolding ev_def by blast
  have step: "emit_loop h k (cb # cbs) d s = emit_loop h (Suc k) cbs d s1"
    using first by (simp add: bind_def)
  from Cons.IH [of "Suc k" s1] obtain tr s' where
    run: "emit_loop h (Suc k) cbs d s1 = (Inr (), s')"
    and tr2: "trace s' = trace s1 @ tr"
    and w2: "world s' = after_listeners d cbs (world s1)"
    and kept2: "engine_state_kept s1 s'"
    and lis: "filter is_Listener tr = map (Listener h) [Suc k..<Suc k + length cbs]"
    and noise: "list_all quiet tr"
    and logged: "\<forall>i<length cbs. \<forall>e. fst ((cbs ! i) d (after_listeners d (take i cbs) (world s1))) = Inl e \<longrightarrow>
           (\<exists>pre post. tr = pre @ Listener h (Suc k + i) # ConsoleError h e # post)"
    by blast
  let ?tr = "Listener h k # ev @ tr"
  have ev_noise: "list_all quiet ev" and ev_lis: "filter is_Listener ev = []"
    by (auto simp: ev_def split: sum.splits)
  have 1: "emit_loop h k (cb # cbs) d s = (Inr (), s')"
    unfolding step run ..
  have 2: "trace s' = trace s @ ?tr" by (simp add: tr1 tr2)
  have 3: "world s' = after_listeners d (cb # cbs) (world s)"
    by (simp add: w2 w1 after_listeners_def)
  have 4: "engine_state_kept s s'"
    using kept1 kept2 by (simp add: engine_state_kept_def)
  have 5: "filter is_Listener ?tr = map (Listener h) [k..<k + length (cb # cbs)]"
  proof -
    have "[k..<k + length (cb # cbs)] = k # [Suc k..<Suc k + length cbs]"
      by (subst upt_rec) simp
    then show ?thesis using lis ev_lis by simp
  qed
  have 6: "list_all quiet ?tr"
    using noise ev_noise by simp
  have 7: "\<exists>pre post. ?tr = pre @ Listener h (k + i) # ConsoleError h e # post"
    if i: "i < length (cb # cbs)"
      and thr: "fst (((cb # cbs) ! i) d (after_listeners d (take i (cb # cbs)) (world s))) = Inl e"
    for i e
  proof (cases i)
    case 0
    with thr have "ev = [ConsoleError h e]" by (simp add: after_listeners_def ev_def)
    then have "?tr = [] @ Listener h (k + i) # ConsoleError h e # tr"
      using 0 by simp
    then show ?thesis by blast
  next
    case (Suc j)
    with i have j: "j < length cbs" by simp
    from thr Suc have "fst ((cbs ! j) d (after_listeners d (take j cbs) (world s1))) = Inl e"
      by (simp add: after_listeners_def w1)
    with logged j obtain pre post where "tr = pre @ Listener h (Suc k + j) # ConsoleError h e # post"
      by blast
    then have "?tr = (Listener h k # ev @ pre) @ Listener h (k + i) # ConsoleError h e # post"
      using Suc by simp
    then show ?thesis by blast
  qed
  from 1 2 3 4 5 6 7 show ?case by blast
qed

lemma emit_spec:
  "\<exists>tr s'. emit hm h d s = (Inr (), s')
     \<and> trace s' = trace s @ Emit h d # tr
     \<and> world s' = after_listeners d (callbacks_of hm h) (world s)
     \<and> engine_state_kept s s'
     \<and> filter is_Listener tr = map (Listener h) [0..<length (callbacks_of hm h)]
     \<and> (list_all quiet tr)
     \<and> (\<forall>i<length (callbacks_of hm h). \<forall>e.
           fst ((callbacks_of hm h ! i) d (after_listeners d (take i (callbacks_of hm h)) (world s))) = Inl e \<longrightarrow>
           (\<exists>pre post. tr = pre @ Listener h i # ConsoleError h e # post))"
proof -
  define s0 where "s0 = s\<lparr>trace := trace s @ [Emit h d]\<rparr>"
  have start: "emit hm h d s = emit_loop h 0 (callbacks_of hm h) d s0"
    by (simp add: emit_def bind_def log_def modify_def s0_def callbacks_of_def)
  from emit_loop_spec [of h 0 "callbacks_of hm h" d s0] obtain tr s' where
    "emit_loop h 0 (callbacks_of hm h) d s0 = (Inr (), s')"
    "trace s' = trace s0 @ tr" "world s' = after_listeners d (callbacks_of hm h) (world s0)"
    "engine_state_kept s0 s'"
    "filter is_Listener tr = map (Listener h) [0..<0 + length (callbacks_of hm h)]"
    "list_all quiet tr"
    "\<forall>i<length (callbacks_of hm h). \<forall>e.
           fst ((callbacks_of hm h ! i) d (after_listeners d (take i (callbacks_of hm h)) (world s0))) = Inl e \<longrightarrow>
           (\<exists>pre post. tr = pre @ Listener h (0 + i) # ConsoleError h e # post)"
    by blast
  then show ?thesis
    unfolding start
    by (intro exI [of _ tr] exI [of _ s']) (simp add: s0_def engine_state_kept_def)
qed

text \<open>
  C7.  \<open>on\<close> puts a listener behind those already registered under the name.  \<open>emit\<close>
  never throws; it calls every listener of the name, in registration order (the events
  \<open>Listener h 0\<close>, \<open>Listener h 1\<close>, ...), each on the world its predecessor left, whether
  that one threw or not; and the exception of a listener that throws is logged right after
  its call.
\<close>

theorem emit_calls_every_listener:
  "callbacks_of (on hm h cb) h = callbacks_of hm h @ [cb]
   \<and> (\<exists>tr s'. emit hm h d s = (Inr (), s')
        \<and> trace s' = trace s @ Emit h d # tr
        \<and> filter is_Listener tr = map (Listener h) [0..<length (callbacks_of hm h)]
        \<and> world s' = after_listeners d (callbacks_of hm h) (world s)
        \<and> (\<forall>i<length (callbacks_of hm h). \<forall>e.
              fst ((callbacks_of hm h ! i) d (after_listeners d (take i (callbacks_of hm h)) (world s)))
                = Inl e \<longrightarrow>
              (\<exists>pre post. tr = pre @ Listener h i # ConsoleError h e # post)))"
proof -
  have "callbacks_of (on hm h cb) h = callbacks_of hm h @ [cb]"
    by (simp add: on_def callbacks_of_def)
  moreover from emit_spec [of hm h d s]
  have "\<exists>tr s'. emit hm h d s = (Inr (), s')
        \<and> trace s' = trace s @ Emit h d # tr
        \<and> filter is_Listener tr = map (Listener h) [0..<length (callbacks_of hm h)]
        \<and> world s' = after_listeners d (callbacks_of hm h) (world s)
        \<and> (\<forall>i<length (callbacks_of hm h). \<forall>e.
              fst ((callbacks_of hm h ! i) d (after_listeners d (take i (callbacks_of hm h)) (world s)))
                = Inl e \<longrightarrow>
              (\<exists>pre post. tr = pre @ Listener h i # ConsoleError h e # post))"
    by blast
  ultimately show ?thesis by blast
qed

theorem emit_calls_every_listener_witness:
  "emit (on (on (on new_HookManager ''ev'' listener_A) ''ev'' listener_B) ''ev'' listener_C)
        ''ev'' (P_data VNull) (fresh [])
   = (Inr (), (fresh ''ABC'')\<lparr>trace :=
        [Emit ''ev'' (P_data VNull), Listener ''ev'' 0, Listener ''ev'' 1,
         ConsoleError ''ev'' (ErrorObj ''Error'' VUndefined ''oops''), Listener ''ev'' 2]\<rparr>)"
  using emit_calls_every_listener
    [of "on (on new_HookManager ''ev'' listener_A) ''ev'' listener_B" "''ev''" listener_C
        "P_data VNull" "fresh []"]
  by (simp add: emit_def on_def callbacks_of_def new_HookManager_def listener_A_def listener_B_def
      listener_C_def bind_def try_catch_def log_def modify_def run_user_def ret_def fresh_def)

section \<open>ActionHandler: the outcomes of handle\<close>

text \<open>
  \<open>action_handle\<close> returns false and leaves the state as it was (nothing ran, nothing
  was counted) when the action type is null or absent, or empty, or when the lookup of the
  name in \<^verbatim>\<open>handlers\<close> finds nothing.  For a registered name it runs the registered
  handler on the data (\<^verbatim>\<open>{}\<close> when absent): when the handler completes, it counts the
  action and returns true; when the handler throws, it counts a failure and throws the same
  exception to its caller.
\<close>

lemma action_handle_outcomes:
  "((actionType = None \<or> actionType = Some []
       \<or> (\<exists>a. actionType = Some a \<and> lookup (handlers ah) a = Absent)) \<longrightarrow>
      action_handle ah actionType data s = (Inr False, s))
   \<and> (\<forall>a h data' w'. actionType = Some a \<and> a \<noteq> [] \<and> handlers ah a = Some h
        \<and> data' = (if data = VUndefined then VObj [] else data) \<longrightarrow>
        (h data' (action_world s) = (Inr (), w') \<longrightarrow>
           action_handle ah actionType data s =
             (Inr True, s\<lparr>stats := (stats s)\<lparr>stats_total := stats_total (stats s) + 1,
                                               byAction := bump (byAction (stats s)) a\<rparr>,
                            action_world := w'\<rparr>))
      \<and> (\<forall>e. h data' (action_world s) = (Inl e, w') \<longrightarrow>
           action_handle ah actionType data s =
             (Inl e, s\<lparr>stats := (stats s)\<lparr>failed := failed (stats s) + 1\<rparr>,
                        action_world := w'\<rparr>)))"
  by (auto simp: action_handle_def call_action_def Let_def ret_def bind_def try_catch_def
        run_action_def action_updateStats_def modify_def throw_def split: option.splits)

lemma action_handle_examples:
  "action_handle demo_actions None (VNum 1) no_actions_yet = (Inr False, no_actions_yet)
   \<and> action_handle demo_actions (Some ''other'') (VNum 1) no_actions_yet = (Inr False, no_actions_yet)
   \<and> fst (action_handle demo_actions (Some ''notify'') (VNum 1) no_actions_yet) = Inr True
   \<and> action_world (snd (action_handle demo_actions (Some ''notify'') (VNum 1) no_actions_yet)) = [VNum 1]
   \<and> fst (action_handle demo_actions (Some ''boom'') (VNum 1) no_actions_yet)
       = Inl (ErrorObj ''Error'' VUndefined ''boom'')
   \<and> failed (stats (snd (action_handle demo_actions (Some ''boom'') (VNum 1) no_actions_yet))) = 1"
proof -
  have "lookup (handlers demo_actions) ''other'' = Absent"
    by (simp add: demo_actions_def lookup_def Object_prototype_def)
  with action_handle_outcomes [of None demo_actions "VNum 1" no_actions_yet]
    action_handle_outcomes [of "Some ''other''" demo_actions "VNum 1" no_actions_yet]
    action_handle_outcomes [of "Some ''notify''" demo_actions "VNum 1" no_actions_yet]
    action_handle_outcomes [of "Some ''boom''" demo_actions "VNum 1" no_actions_yet]
  show ?thesis by (simp add: demo_actions_def no_actions_yet_def)
qed

text \<open>
  C8 does not hold of every name.  \<^verbatim>\<open>this.handlers\<close> is a plain object: for an action
  type that \<^verbatim>\<open>Object.prototype\<close> has, \<^verbatim>\<open>this.handlers[actionType]\<close> finds the inherited
  member though no handler is registered.  With no handler registered at all, the action
  type \<open>constructor\<close> is not answered by false: \<^verbatim>\<open>Object(data, context)\<close> is called, the
  action is counted and \<open>action_handle\<close> returns true; and for the action type
  \<open>hasOwnProperty\<close> the call throws a TypeError, which is counted as a failure and thrown to
  the caller.
\<close>

theorem action_handle_inherited_names:
  "handlers (new_ActionHandler False :: val list ActionHandler) ''constructor'' = None
   \<and> fst (action_handle (new_ActionHandler False) (Some ''constructor'') (VNum 1) no_actions_yet)
       = Inr True
   \<and> stats_total (stats (snd (action_handle (new_ActionHandler False) (Some ''constructor'')
        (VNum 1) no_actions_yet))) = 1
   \<and> handlers (new_ActionHandler False :: val list ActionHandler) ''hasOwnProperty'' = None
   \<and> fst (action_handle (new_ActionHandler False) (Some ''hasOwnProperty'') (VNum 1) no_actions_yet)
       = Inl (TypeError ''Cannot convert undefined or null to object'')
   \<and> failed (stats (snd (action_handle (new_ActionHandler False) (Some ''hasOwnProperty'')
        (VNum 1) no_actions_yet))) = 1"
  by (simp add: new_ActionHandler_def action_handle_def call_action_def inherited_action_def
      lookup_def Object_prototype_def Let_def ret_def bind_def try_catch_def throw_def
      action_updateStats_def modify_def no_actions_yet_def)

section \<open>Pipeline: what one turn of the retry loop does\<close>

lemma emit_hook_spec:
  "\<exists>L s'. emit_hook P h d s = (Inr (), s') \<and> trace s' = trace s @ hook_tr P h d L
     \<and> list_all quiet L \<and> engine_state_kept s s'"
proof (cases "hooks P")
  case None
  then show ?thesis
    by (intro exI [of _ "[]"] exI [of _ s])
       (simp add: emit_hook_def ret_def hook_tr_def engine_state_kept_def)
next
  case (Some hm)
  from emit_spec [of hm h d s] obtain tr s' where
    "emit hm h d s = (Inr (), s')" "trace s' = trace s @ Emit h d # tr"
    "engine_state_kept s s'" "list_all quiet tr"
    by blast
  with Some show ?thesis
    by (intro exI [of _ tr] exI [of _ s']) (simp add: emit_hook_def hook_tr_def)
qed

lemma call_stage_spec:
  assumes "call_stage i st s = (r, s')"
  shows "engine_state_kept s s' \<and> call st (world s) = (r, world s')
     \<and> trace s' = trace s @ [Invoke i (stageName_of st),
          (case r of Inr v \<Rightarrow> Return i (stageName_of st) v | Inl e \<Rightarrow> Throw i (stageName_of st) e)]"
  using assms
  by (cases "call st (world s)"; cases "fst (call st (world s))")
     (auto simp: call_stage_def bind_def try_catch_def log_def modify_def run_user_def ret_def
        throw_def engine_state_kept_def)

lemma collect_action_spec:
  assumes "message_actions s \<noteq> None"
  shows "\<exists>s'. collect_action P n v s = (Inr (), s') \<and> trace s' = trace s
     \<and> message_actions s' \<noteq> None \<and> verdict_kept s s' \<and> world s' = world s
     \<and> errorStats s' = errorStats s"
  using assms
  by (auto simp: collect_action_def bind_def gets_def push_action_def ret_def verdict_kept_def)

lemma handleStageError_spec:
  assumes "handleStageError eh err n a s = (r, s')"
  shows "\<exists>L v. r = Inr v \<and> v \<noteq> VUndefined \<and> v \<noteq> VNull \<and> trace s' = trace s @ L
     \<and> list_all quiet L \<and> message_actions s' = message_actions s \<and> result s' = result s"
  using assms
  by (auto simp: handleStageError_def ret_def bind_def log_def modify_def Let_def recovery_def
        split: property.splits if_splits)

lemma call_handler_spec:
  assumes "call_handler eh h err n a s = (r, s')"
  shows "\<exists>L. trace s' = trace s @ L
     \<and> list_all quiet L \<and> message_actions s' = message_actions s \<and> result s' = result s"
proof (cases h)
  case HandleStageError
  with assms handleStageError_spec [of eh err n a s r s'] show ?thesis
    by (auto simp: call_handler_def)
next
  case HandleDatabaseError
  with assms show ?thesis
    by (intro exI [of _ "[]"])
       (auto simp: call_handler_def handleDatabaseError_def ret_def throw_def
          split: thrown.splits if_splits)
next
  case HandleValidationError
  with assms show ?thesis
    by (intro exI [of _ "[]"])
       (auto simp: call_handler_def handleValidationError_def ret_def throw_def split: thrown.splits)
next
  case (Custom f)
  with assms show ?thesis
    by (intro exI [of _ "[]"]) (auto simp: call_handler_def run_user_def split: prod.splits)
qed

lemma inherited_handler_spec:
  assumes "inherited_handler member err s = (r, s')"
  shows "s' = s"
  using assms by (auto simp: inherited_handler_def ret_def throw_def split: if_splits)

lemma handle_spec:
  assumes "handle eh err n a s = (r, s')"
  shows "\<exists>L. trace s' = trace s @ L
     \<and> list_all quiet L \<and> message_actions s' = message_actions s \<and> result s' = result s"
proof (cases err)
  case Nullish
  with assms show ?thesis
    by (intro exI [of _ "[]"]) (auto simp: handle_def bind_def updateStats_Nullish)
next
  case (ErrorObj k c m)
  show ?thesis
  proof (cases "lookup (recoveryStrategies eh) n = Absent")
    case False
    with assms ErrorObj have "handleStageError eh err n a (counted k n s) = (r, s')"
      by (simp add: handle_found)
    from handleStageError_spec [OF this] show ?thesis by (auto simp: counted_def)
  next
    case True
    note dispatch = handle_Absent [OF True, of k c m a s]
    show ?thesis
    proof (cases "lookup (errorHandlers eh) k")
      case (Own h)
      with assms ErrorObj dispatch have "call_handler eh h err n a (counted k n s) = (r, s')"
        by simp
      from call_handler_spec [OF this] show ?thesis by (auto simp: counted_def)
    next
      case (Inherited member)
      with assms ErrorObj dispatch have "inherited_handler member err (counted k n s) = (r, s')"
        by simp
      from inherited_handler_spec [OF this] show ?thesis
        by (intro exI [of _ "[]"]) (simp add: counted_def)
    next
      case Absent
      with assms ErrorObj dispatch show ?thesis
        by (intro exI [of _ "[]"]) (auto simp: handleUnknownError_def ret_def counted_def)
    qed
  qed
qed

lemma try_stage_spec:
  assumes run: "try_stage P i st s = (r, s')" and ma: "message_actions s \<noteq> None"
  shows "message_actions s' \<noteq> None \<and>
    ((\<exists>e L1. r = Inl e \<and> list_all quiet L1 \<and> result s' = result s
        \<and> (\<exists>w w'. call st w = (Inl e, w'))
        \<and> trace s' = trace s @ hook_tr P ''before:stage'' (P_stage (stageName_of st)) L1
             @ [Invoke i (stageName_of st), Throw i (stageName_of st) e])
     \<or> (\<exists>v tr. r = Inr () \<and> returned_turn P i (stageName_of st) v tr \<and> trace s' = trace s @ tr
        \<and> (\<exists>w w'. call st w = (Inr v, w'))
        \<and> returned_effect v s s'))"
proof -
  let ?n = "stageName_of st"
  from emit_hook_spec [of P "''before:stage''" "P_stage ?n" s] obtain L1 s1 where
    e1: "emit_hook P ''before:stage'' (P_stage ?n) s = (Inr (), s1)"
    and t1: "trace s1 = trace s @ hook_tr P ''before:stage'' (P_stage ?n) L1"
    and q1: "list_all quiet L1" and k1: "engine_state_kept s s1"
    by blast
  obtain r2 s2 where c2: "call_stage i st s1 = (r2, s2)" by fastforce
  from call_stage_spec [OF c2] have k2: "engine_state_kept s1 s2"
    and w2: "call st (world s1) = (r2, world s2)"
    and t2: "trace s2 = trace s1 @ [Invoke i ?n,
          (case r2 of Inr v \<Rightarrow> Return i ?n v | Inl e \<Rightarrow> Throw i ?n e)]"
    by simp_all
  show ?thesis
  proof (cases r2)
    case (Inl e)
    with run e1 c2 have "r = Inl e" "s' = s2" by (simp_all add: try_stage_def bind_def)
    with Inl t1 t2 q1 k1 k2 ma w2 show ?thesis
      by (auto simp: engine_state_kept_def)
  next
    case (Inr v)
    have ma2: "message_actions s2 \<noteq> None" using k1 k2 ma by (simp add: engine_state_kept_def)
    from collect_action_spec [OF ma2, of P ?n v] obtain s3 where
      c3: "collect_action P ?n v s2 = (Inr (), s3)" and t3: "trace s3 = trace s2"
      and ma3: "message_actions s3 \<noteq> None" and v3: "verdict_kept s2 s3"
      by blast
    from emit_hook_spec [of P "''after:stage''" "P_stage_result ?n v" s3] obtain L2 s4 where
      e4: "emit_hook P ''after:stage'' (P_stage_result ?n v) s3 = (Inr (), s4)"
      and t4: "trace s4 = trace s3 @ hook_tr P ''after:stage'' (P_stage_result ?n v) L2"
      and q4: "list_all quiet L2" and k4: "engine_state_kept s3 s4"
      by blast
    let ?tr = "hook_tr P ''before:stage'' (P_stage ?n) L1 @ [Invoke i ?n, Return i ?n v]
             @ hook_tr P ''after:stage'' (P_stage_result ?n v) L2"
    have turn: "returned_turn P i ?n v ?tr"
      unfolding returned_turn_def using q1 q4 by blast
    have tr4: "trace s4 = trace s @ ?tr" using t1 t2 t3 t4 Inr by simp
    have v4: "verdict_kept s s4"
      using k1 k2 v3 k4 by (simp add: engine_state_kept_def verdict_kept_def)
    have ma4: "message_actions s4 \<noteq> None" using ma3 k4 by (simp add: engine_state_kept_def)
    have called: "\<exists>w w'. call st w = (Inr v, w')" using w2 Inr by blast
    have fin: "(r, s') = (if truthy (opt_chain v ''stop'') then
                     modify (\<lambda>s. s\<lparr>result := (result s)
                        \<lparr>stop := True, metadata := spread (metadata (result s)) v\<rparr>\<rparr>)
                   else ret ()) s4"
      using run e1 c2 Inr c3 e4 by (simp add: try_stage_def bind_def)
    show ?thesis
    proof (cases "truthy (opt_chain v ''stop'')")
      case True
      with fin have "r = Inr ()" and "s' = s4\<lparr>result := (result s4)
                        \<lparr>stop := True, metadata := spread (metadata (result s4)) v\<rparr>\<rparr>"
        by (simp_all add: modify_def)
      with True turn tr4 v4 ma4 called show ?thesis
        by (auto simp: verdict_kept_def returned_effect_def)
    next
      case False
      with fin have "r = Inr ()" and "s' = s4" by (simp_all add: ret_def)
      with False turn tr4 v4 ma4 called show ?thesis by (auto simp: returned_effect_def)
    qed
  qed
qed

lemma catch_stage_spec:
  assumes run: "catch_stage P st a err s = (r, s')"
  shows "message_actions s' = message_actions s \<and>
    (\<exists>L2 L3. list_all quiet L2 \<and> list_all quiet L3 \<and>
       trace s' = trace s @ hook_tr P ''error:stage'' (P_stage_error (stageName_of st) err) L2 @ L3)
    \<and> ((\<exists>x. r = Inl x \<and> result s' = result s \<and> errorHandler P \<noteq> None)
       \<or> (\<exists>c. r = Inr (a + 1, c)
            \<and> (\<not> c \<longrightarrow> result s' = result s
                       \<and> int (a + 1) < maxAttempts_of P (stageName_of st))
            \<and> (result s' = result s
               \<or> c \<and> errorHandler P \<noteq> None
                   \<and> result s' = stopped_with err (stageName_of st) (result s))))"
proof -
  let ?n = "stageName_of st"
  from emit_hook_spec [of P "''error:stage''" "P_stage_error ?n err" s] obtain L2 s1 where
    e1: "emit_hook P ''error:stage'' (P_stage_error ?n err) s = (Inr (), s1)"
    and t1: "trace s1 = trace s @ hook_tr P ''error:stage'' (P_stage_error ?n err) L2"
    and q1: "list_all quiet L2" and k1: "engine_state_kept s s1"
    by blast
  show ?thesis
  proof (cases "errorHandler P")
    case None
    with run e1 have "r = Inr (a + 1, True)" "s' = s1"
      by (simp_all add: catch_stage_def Let_def bind_def ret_def)
    moreover have "list_all quiet L2 \<and> list_all quiet [] \<and>
       trace s1 = trace s @ hook_tr P ''error:stage'' (P_stage_error ?n err) L2 @ []"
      using t1 q1 by simp
    ultimately show ?thesis
      using k1 unfolding engine_state_kept_def by blast
  next
    case (Some eh)
    obtain r2 s2 where h2: "handle eh err ?n (Some (a + 1)) s1 = (r2, s2)" by fastforce
    from handle_spec [OF h2] obtain L3 where t2: "trace s2 = trace s1 @ L3"
      and q2: "list_all quiet L3" and ma2: "message_actions s2 = message_actions s1"
      and res2: "result s2 = result s1"
      by blast
    have tr: "list_all quiet L2 \<and> list_all quiet L3 \<and>
       trace s2 = trace s @ hook_tr P ''error:stage'' (P_stage_error ?n err) L2 @ L3"
      using t1 t2 q1 q2 by simp
    have base: "message_actions s2 = message_actions s" "result s2 = result s"
      using ma2 res2 k1 by (simp_all add: engine_state_kept_def)
    show ?thesis
    proof (cases r2)
      case (Inl x)
      with run e1 Some h2 have "r = Inl x" "s' = s2"
        by (simp_all add: catch_stage_def Let_def bind_def)
      with tr base Some show ?thesis by blast
    next
      case (Inr recov)
      show ?thesis
      proof (cases "recov = VUndefined \<or> recov = VNull")
        case True
        with run e1 Some h2 Inr have "\<exists>x. r = Inl x" "s' = s2"
          by (auto simp: catch_stage_def Let_def bind_def get_prop_def throw_def)
        with tr base Some show ?thesis by blast
      next
        case False
        then have gp: "get_prop recov ''action'' s2 = (Inr (opt_chain recov ''action''), s2)"
          by (simp add: get_prop_def ret_def)
        consider (stopped) "r = Inr (a + 1, True)"
              "s' = s2\<lparr>result := stopped_with err ?n (result s2)\<rparr>"
          | (skipped) "r = Inr (a + 1, True)" "s' = s2"
          | (again) "r = Inr (a + 1, False)" "s' = s2" "int (a + 1) < maxAttempts_of P ?n"
          using run e1 Some h2 Inr gp
          by (auto simp: catch_stage_def Let_def bind_def ret_def stop_with_error_def modify_def
                stopped_with_def split: if_splits)
        then show ?thesis
        proof cases
          case stopped
          with tr base Some show ?thesis by auto
        next
          case skipped
          with tr base show ?thesis by auto
        next
          case again
          with tr base show ?thesis by auto
        qed
      qed
    qed
  qed
qed

lemma loop_body_spec:
  assumes run: "loop_body P i st a s = (r, s')" and ma: "message_actions s \<noteq> None"
  shows "message_actions s' \<noteq> None \<and>
    ((\<exists>v tr. r = Inr (a, True) \<and> returned_turn P i (stageName_of st) v tr
        \<and> trace s' = trace s @ tr \<and> (\<exists>w w'. call st w = (Inr v, w'))
        \<and> returned_effect v s s')
     \<or> (\<exists>e tr. thrown_turn P i (stageName_of st) e tr \<and> trace s' = trace s @ tr
        \<and> (\<exists>w w'. call st w = (Inl e, w'))
        \<and> ((\<exists>x. r = Inl x \<and> result s' = result s \<and> errorHandler P \<noteq> None)
           \<or> (\<exists>c. r = Inr (a + 1, c)
                \<and> (\<not> c \<longrightarrow> result s' = result s
                           \<and> int (a + 1) < maxAttempts_of P (stageName_of st))
                \<and> (result s' = result s
                   \<or> c \<and> errorHandler P \<noteq> None
                       \<and> result s' = stopped_with e (stageName_of st) (result s))))))"
proof -
  let ?n = "stageName_of st"
  obtain r1 s1 where t1: "try_stage P i st s = (r1, s1)" by fastforce
  from try_stage_spec [OF t1 ma] have ma1: "message_actions s1 \<noteq> None"
    and alt: "(\<exists>e L1. r1 = Inl e \<and> list_all quiet L1 \<and> result s1 = result s
        \<and> (\<exists>w w'. call st w = (Inl e, w'))
        \<and> trace s1 = trace s @ hook_tr P ''before:stage'' (P_stage ?n) L1
             @ [Invoke i ?n, Throw i ?n e])
     \<or> (\<exists>v tr. r1 = Inr () \<and> returned_turn P i ?n v tr \<and> trace s1 = trace s @ tr
        \<and> (\<exists>w w'. call st w = (Inr v, w'))
        \<and> returned_effect v s s1)"
    by blast+
  from alt show ?thesis
  proof
    assume "\<exists>v tr. r1 = Inr () \<and> returned_turn P i ?n v tr \<and> trace s1 = trace s @ tr
        \<and> (\<exists>w w'. call st w = (Inr v, w'))
        \<and> returned_effect v s s1"
    moreover from this run t1 have "r = Inr (a, True)" "s' = s1"
      by (auto simp: loop_body_def try_catch_def bind_def ret_def)
    ultimately show ?thesis using ma1 by blast
  next
    assume "\<exists>e L1. r1 = Inl e \<and> list_all quiet L1 \<and> result s1 = result s
        \<and> (\<exists>w w'. call st w = (Inl e, w'))
        \<and> trace s1 = trace s @ hook_tr P ''before:stage'' (P_stage ?n) L1
             @ [Invoke i ?n, Throw i ?n e]"
    then obtain e L1 where r1: "r1 = Inl e" and q1: "list_all quiet L1"
      and res1: "result s1 = result s" and threw: "\<exists>w w'. call st w = (Inl e, w')"
      and tr1: "trace s1 = trace s @ hook_tr P ''before:stage'' (P_stage ?n) L1
             @ [Invoke i ?n, Throw i ?n e]"
      by blast
    from run t1 r1 have c: "catch_stage P st a e s1 = (r, s')"
      by (simp add: loop_body_def try_catch_def bind_def)
    from catch_stage_spec [OF c] obtain L2 L3 where
      ma2: "message_actions s' = message_actions s1"
      and q2: "list_all quiet L2" "list_all quiet L3"
      and tr2: "trace s' = trace s1 @ hook_tr P ''error:stage'' (P_stage_error ?n e) L2 @ L3"
      and out: "(\<exists>x. r = Inl x \<and> result s' = result s1 \<and> errorHandler P \<noteq> None)
       \<or> (\<exists>c. r = Inr (a + 1, c)
            \<and> (\<not> c \<longrightarrow> result s' = result s1 \<and> int (a + 1) < maxAttempts_of P ?n)
            \<and> (result s' = result s1
               \<or> c \<and> errorHandler P \<noteq> None \<and> result s' = stopped_with e ?n (result s1)))"
      by blast
    let ?tr = "hook_tr P ''before:stage'' (P_stage ?n) L1 @ [Invoke i ?n, Throw i ?n e]
             @ hook_tr P ''error:stage'' (P_stage_error ?n e) L2 @ L3"
    have "thrown_turn P i ?n e ?tr"
      unfolding thrown_turn_def using q1 q2 by blast
    moreover have "trace s' = trace s @ ?tr" using tr1 tr2 by simp
    moreover have "message_actions s' \<noteq> None" using ma1 ma2 by simp
    ultimately show ?thesis using out threw unfolding res1 by blast
  qed
qed

section \<open>Pipeline: invariants of a run\<close>

text \<open>
  A property of the state that every turn of the retry loop keeps, started where the run is
  not stopped, holds when the loop of the stage ends; and a turn never starts in a stopped
  run.
\<close>

lemma stage_while_rule:
  "stage_while P i st ac s = (r, s') \<Longrightarrow> I s \<Longrightarrow> (\<not> snd ac \<longrightarrow> \<not> stop (result s)) \<Longrightarrow>
   message_actions s \<noteq> None \<Longrightarrow>
   (\<And>a s r s'. I s \<Longrightarrow> \<not> stop (result s) \<Longrightarrow> message_actions s \<noteq> None \<Longrightarrow>
      loop_body P i st a s = (r, s') \<Longrightarrow> I s') \<Longrightarrow>
   I s' \<and> message_actions s' \<noteq> None \<and> (\<forall>e. r = Inl e \<longrightarrow> \<not> stop (result s'))"
proof (induction P i st ac s rule: stage_while.induct)
  case (1 P i st attempt s)
  then show ?case by auto
next
  case (2 P i st attempt s)
  obtain r1 s1 where lb: "loop_body P i st attempt s = (r1, s1)" by fastforce
  have ns: "\<not> stop (result s)" using "2.prems"(3) by simp
  have I1: "I s1" using "2.prems"(5) [OF "2.prems"(2) ns "2.prems"(4) lb] .
  from loop_body_spec [OF lb "2.prems"(4)] have ma1: "message_actions s1 \<noteq> None"
    and inl: "\<And>x. r1 = Inl x \<Longrightarrow> result s1 = result s"
    and again: "\<And>a'. r1 = Inr (a', False) \<Longrightarrow> result s1 = result s"
    by auto
  show ?case
  proof (cases r1)
    case (Inl x)
    with lb "2.prems"(1) have "r = Inl x" "s' = s1" by simp_all
    with I1 ma1 inl [OF Inl] ns show ?thesis by simp
  next
    case (Inr vars)
    with lb "2.prems"(1) have run': "stage_while P i st vars s1 = (r, s')" by simp
    have "\<not> snd vars \<longrightarrow> \<not> stop (result s1)"
      using again [of "fst vars"] Inr ns by (cases vars) auto
    from "2.IH" [OF lb [symmetric] Inr run' I1 this ma1 "2.prems"(5)]
    show ?thesis by simp
  qed
qed

lemma for_stages_rule:
  "for_stages P i sts s = (r, s') \<Longrightarrow> I i s \<Longrightarrow> \<not> stop (result s) \<Longrightarrow>
   message_actions s \<noteq> None \<Longrightarrow>
   (\<And>j a s r s'. j < length sts \<Longrightarrow> I (i + j) s \<Longrightarrow> \<not> stop (result s) \<Longrightarrow>
      message_actions s \<noteq> None \<Longrightarrow> loop_body P (i + j) (sts ! j) a s = (r, s') \<Longrightarrow> I (i + j) s') \<Longrightarrow>
   (\<And>j s. I j s \<Longrightarrow> \<not> stop (result s) \<Longrightarrow> I (Suc j) s) \<Longrightarrow>
   (\<exists>j. I j s') \<and> message_actions s' \<noteq> None \<and> (\<forall>e. r = Inl e \<longrightarrow> \<not> stop (result s'))"
proof (induction sts arbitrary: i s)
  case Nil
  then show ?case by auto
next
  case (Cons st rest)
  obtain r1 s1 where sw: "stage_while P i st (0, False) s = (r1, s1)" by fastforce
  have step0: "\<And>a s r s'. I i s \<Longrightarrow> \<not> stop (result s) \<Longrightarrow> message_actions s \<noteq> None \<Longrightarrow>
      loop_body P i st a s = (r, s') \<Longrightarrow> I i s'"
    using Cons.prems(5) [of 0] by simp
  from stage_while_rule [where I = "I i", OF sw Cons.prems(2) _ Cons.prems(4) step0]
  have I1: "I i s1" and ma1: "message_actions s1 \<noteq> None"
    and inl: "\<And>e. r1 = Inl e \<Longrightarrow> \<not> stop (result s1)"
    using Cons.prems(3) by auto
  show ?case
  proof (cases r1)
    case (Inl e)
    with sw Cons.prems(1) have "r = Inl e" "s' = s1" by simp_all
    with I1 ma1 inl [OF Inl] show ?thesis by auto
  next
    case (Inr u)
    show ?thesis
    proof (cases "stop (result s1)")
      case True
      with sw Inr Cons.prems(1) have "r = Inr ()" "s' = s1" by simp_all
      with I1 ma1 show ?thesis by auto
    next
      case False
      with sw Inr Cons.prems(1) have run': "for_stages P (Suc i) rest s1 = (r, s')" by simp
      have step': "\<And>j a s r s'. j < length rest \<Longrightarrow> I (Suc i + j) s \<Longrightarrow> \<not> stop (result s) \<Longrightarrow>
          message_actions s \<noteq> None \<Longrightarrow> loop_body P (Suc i + j) (rest ! j) a s = (r, s') \<Longrightarrow>
          I (Suc i + j) s'"
        using Cons.prems(5) [of "Suc _"] by simp
      from Cons.IH [OF run' Cons.prems(6) [OF I1 False] False ma1 step' Cons.prems(6)]
      show ?thesis .
    qed
  qed
qed

section \<open>Pipeline: the shape of a run\<close>

lemma process_shape:
  assumes run: "process P s = (r, s')"
  shows "\<exists>s1 s2 rf L0. list_all quiet L0
    \<and> trace s1 = trace s @ hook_tr P ''before:pipeline'' P_message L0
    \<and> result s1 = initial_result \<and> message_actions s1 \<noteq> None
    \<and> for_stages P 0 (stages P) s1 = (rf, s2)
    \<and> ((\<exists>e. rf = Inl e \<and> r = Inl e \<and> s' = s2)
       \<or> (rf = Inr () \<and> r = Inr (result s2) \<and> result s' = result s2
          \<and> (\<exists>L1. list_all quiet L1
               \<and> trace s' = trace s2 @ hook_tr P ''after:pipeline'' (P_result (result s2)) L1)))"
proof -
  define s0 where "s0 = (\<lambda>s. if message_actions s = None then s\<lparr>message_actions := Some []\<rparr> else s)
                          (s\<lparr>result := initial_result\<rparr>)"
  have s0: "trace s0 = trace s" "result s0 = initial_result" "message_actions s0 \<noteq> None"
    by (simp_all add: s0_def)
  from emit_hook_spec [of P "''before:pipeline''" P_message s0] obtain L0 s1 where
    e1: "emit_hook P ''before:pipeline'' P_message s0 = (Inr (), s1)"
    and t1: "trace s1 = trace s0 @ hook_tr P ''before:pipeline'' P_message L0"
    and q1: "list_all quiet L0" and k1: "engine_state_kept s0 s1"
    by blast
  obtain rf s2 where fs: "for_stages P 0 (stages P) s1 = (rf, s2)" by fastforce
  have init: "process P s =
      bind (emit_hook P ''before:pipeline'' P_message)
        (\<lambda>_. bind (for_stages P 0 (stages P))
          (\<lambda>_. bind (gets result)
            (\<lambda>r. bind (emit_hook P ''after:pipeline'' (P_result r)) (\<lambda>_. gets result)))) s0"
    unfolding process_def s0_def initial_result_def by (simp add: bind_def modify_def)
  have start: "process P s =
      (case for_stages P 0 (stages P) s1 of
         (Inl e, s') \<Rightarrow> (Inl e, s')
       | (Inr u, s') \<Rightarrow>
           bind (emit_hook P ''after:pipeline'' (P_result (result s'))) (\<lambda>_. gets result) s')"
    unfolding init using e1 by (simp add: bind_def gets_def split: prod.splits sum.splits)
  have pre: "list_all quiet L0
    \<and> trace s1 = trace s @ hook_tr P ''before:pipeline'' P_message L0
    \<and> result s1 = initial_result \<and> message_actions s1 \<noteq> None"
    using s0 t1 q1 k1 by (simp add: engine_state_kept_def)
  show ?thesis
  proof (cases rf)
    case (Inl e)
    with run start fs have "r = Inl e" "s' = s2" by simp_all
    with pre fs Inl show ?thesis by blast
  next
    case (Inr u)
    from emit_hook_spec [of P "''after:pipeline''" "P_result (result s2)" s2] obtain L1 s3 where
      e3: "emit_hook P ''after:pipeline'' (P_result (result s2)) s2 = (Inr (), s3)"
      and t3: "trace s3 = trace s2 @ hook_tr P ''after:pipeline'' (P_result (result s2)) L1"
      and q3: "list_all quiet L1" and k3: "engine_state_kept s2 s3"
      by blast
    from run start fs Inr e3 have "r = Inr (result s3)" "s' = s3"
      by (auto simp: bind_def gets_def)
    with t3 q3 k3 have "rf = Inr () \<and> r = Inr (result s2) \<and> result s' = result s2
          \<and> (\<exists>L1. list_all quiet L1
               \<and> trace s' = trace s2 @ hook_tr P ''after:pipeline'' (P_result (result s2)) L1)"
      using Inr by (auto simp: engine_state_kept_def)
    with pre fs show ?thesis by blast
  qed
qed

lemma process_returned:
  assumes "process P s = (Inr res, s')"
  shows "\<exists>s1 s2 L0 L1. list_all quiet L0 \<and> list_all quiet L1
    \<and> trace s1 = trace s @ hook_tr P ''before:pipeline'' P_message L0
    \<and> result s1 = initial_result \<and> message_actions s1 \<noteq> None
    \<and> for_stages P 0 (stages P) s1 = (Inr (), s2)
    \<and> res = result s2 \<and> result s' = result s2
    \<and> trace s' = trace s2 @ hook_tr P ''after:pipeline'' (P_result (result s2)) L1"
proof -
  from process_shape [OF assms] obtain s1 s2 rf L0 where pre: "list_all quiet L0"
    "trace s1 = trace s @ hook_tr P ''before:pipeline'' P_message L0"
    "result s1 = initial_result" "message_actions s1 \<noteq> None"
    and fs: "for_stages P 0 (stages P) s1 = (rf, s2)"
    and fin: "(\<exists>e. rf = Inl e \<and> Inr res = (Inl e :: thrown + run_result) \<and> s' = s2)
       \<or> (rf = Inr () \<and> Inr res = (Inr (result s2) :: thrown + run_result) \<and> result s' = result s2
          \<and> (\<exists>L1. list_all quiet L1
               \<and> trace s' = trace s2 @ hook_tr P ''after:pipeline'' (P_result (result s2)) L1))"
    by blast
  from fin obtain L1 where "rf = Inr ()" "res = result s2" "result s' = result s2"
    "list_all quiet L1"
    "trace s' = trace s2 @ hook_tr P ''after:pipeline'' (P_result (result s2)) L1"
    by auto
  with pre fs show ?thesis by blast
qed

text \<open>Reading the events of a turn.\<close>

lemma emitted_append [simp]: "emitted (xs @ ys) = emitted xs @ emitted ys"
  by (simp add: emitted_def)

lemma emitted_Cons [simp]: "emitted (x # xs) = emission x @ emitted xs"
  by (simp add: emitted_def)

lemma emitted_Nil [simp]: "emitted [] = []"
  by (simp add: emitted_def)

lemma emitted_quiet [simp]: "list_all quiet L \<Longrightarrow> emitted L = []"
proof (induction L)
  case Nil
  show ?case by simp
next
  case (Cons x L)
  then show ?case by (cases x) simp_all
qed

lemma emitted_hook_tr:
  "list_all quiet L \<Longrightarrow> emitted (hook_tr P h d L) = (if hooks P = None then [] else [(h, d)])"
  by (simp add: hook_tr_def)

lemma filter_quiet:
  "list_all quiet L \<Longrightarrow> (\<And>e. quiet e \<Longrightarrow> \<not> Q e) \<Longrightarrow> filter Q L = []"
  by (induction L) auto

lemma filter_hook_tr:
  "list_all quiet L \<Longrightarrow> (\<And>e. quiet e \<Longrightarrow> \<not> Q e) \<Longrightarrow>
   filter Q (hook_tr P h d L) = (if hooks P \<noteq> None \<and> Q (Emit h d) then [Emit h d] else [])"
  by (simp add: hook_tr_def filter_quiet)

lemma set_quiet:
  "list_all quiet L \<Longrightarrow> e \<in> set L \<Longrightarrow> quiet e"
  by (simp add: list_all_iff)

lemma set_hook_tr:
  "list_all quiet L \<Longrightarrow> e \<in> set (hook_tr P h d L) \<Longrightarrow> e = Emit h d \<or> quiet e"
  by (auto simp: hook_tr_def list_all_iff split: if_splits)

lemma quiet_not_Emit: "quiet e \<Longrightarrow> e \<noteq> Emit h d"
  by (cases e) simp_all

lemma quiet_not_invoked_named: "quiet e \<Longrightarrow> \<not> invoked_named n e"
  by (cases e) simp_all

lemma quiet_not_invoked_at: "quiet e \<Longrightarrow> \<not> invoked_at i e"
  by (cases e) simp_all

lemma before_stage_count_append [simp]:
  "before_stage_count n (xs @ ys) = before_stage_count n xs + before_stage_count n ys"
  by (simp add: before_stage_count_def)

lemma invocation_count_append [simp]:
  "invocation_count n (xs @ ys) = invocation_count n xs + invocation_count n ys"
  by (simp add: invocation_count_def)

lemma counts_quiet:
  assumes "list_all quiet L"
  shows "before_stage_count n L = 0" and "invocation_count n L = 0"
  using assms
  by (simp_all add: before_stage_count_def invocation_count_def filter_quiet quiet_not_Emit
        quiet_not_invoked_named)

lemma counts_hook_tr:
  assumes "list_all quiet L"
  shows "before_stage_count n (hook_tr P h d L) =
           (if hooks P \<noteq> None \<and> h = ''before:stage'' \<and> d = P_stage n then 1 else 0)"
    and "invocation_count n (hook_tr P h d L) = 0"
  using assms counts_quiet [OF assms, of n]
  by (auto simp: hook_tr_def before_stage_count_def invocation_count_def)

lemma turn_form:
  assumes "returned_turn P i m v tr \<or> thrown_turn P i m e tr"
  shows "\<exists>L1 L2 L3 x h d. list_all quiet L1 \<and> list_all quiet L2 \<and> list_all quiet L3
     \<and> tr = hook_tr P ''before:stage'' (P_stage m) L1 @ [Invoke i m, x] @ hook_tr P h d L2 @ L3
     \<and> (x = Return i m v \<and> h = ''after:stage'' \<and> d = P_stage_result m v
        \<or> x = Throw i m e \<and> h = ''error:stage'' \<and> d = P_stage_error m e)"
  using assms
proof
  assume "returned_turn P i m v tr"
  then obtain L1 L2 where "list_all quiet L1" "list_all quiet L2" "list_all quiet ([]::event list)"
    "tr = hook_tr P ''before:stage'' (P_stage m) L1 @ [Invoke i m, Return i m v]
             @ hook_tr P ''after:stage'' (P_stage_result m v) L2 @ []"
    unfolding returned_turn_def by auto
  then show ?thesis by blast
next
  assume "thrown_turn P i m e tr"
  then show ?thesis unfolding thrown_turn_def by blast
qed

lemma counts_turn:
  assumes "returned_turn P i m v tr \<or> thrown_turn P i m e tr" and "hooks P \<noteq> None"
  shows "before_stage_count n tr = (if n = m then 1 else 0)"
    and "invocation_count n tr = (if n = m then 1 else 0)"
proof -
  from turn_form [OF assms(1)] obtain L1 L2 L3 x h d where
    q: "list_all quiet L1" "list_all quiet L2" "list_all quiet L3"
    and tr: "tr = hook_tr P ''before:stage'' (P_stage m) L1 @ [Invoke i m, x] @ hook_tr P h d L2 @ L3"
    and x: "x = Return i m v \<or> x = Throw i m e" and h: "h = ''after:stage'' \<or> h = ''error:stage''"
    by blast
  define mid where "mid = [Invoke i m, x]"
  have tr': "tr = hook_tr P ''before:stage'' (P_stage m) L1 @ mid @ hook_tr P h d L2 @ L3"
    by (simp add: tr mid_def)
  have xs: "before_stage_count n mid = 0"
       "invocation_count n mid = (if n = m then 1 else 0)"
    using x by (auto simp: before_stage_count_def invocation_count_def mid_def)
  show "before_stage_count n tr = (if n = m then 1 else 0)"
    unfolding tr' using q h xs assms(2) by (auto simp: counts_hook_tr counts_quiet)
  show "invocation_count n tr = (if n = m then 1 else 0)"
    unfolding tr' using q xs by (simp add: counts_hook_tr counts_quiet)
qed

lemma loop_body_turn:
  assumes "loop_body P i st a s = (r, s')" and "message_actions s \<noteq> None"
  shows "\<exists>tr v e. trace s' = trace s @ tr
     \<and> (returned_turn P i (stageName_of st) v tr \<or> thrown_turn P i (stageName_of st) e tr)"
  using loop_body_spec [OF assms] by blast

text \<open>
  C9.  With a hook manager attached, a run emits \<open>before:stage\<close> for a stage name as often
  as it calls stages of that name: once for every attempt, retries included.
\<close>

theorem before_stage_per_attempt:
  assumes run: "process P s = (r, s')" and fresh: "trace s = []" and hooked: "hooks P \<noteq> None"
  shows "before_stage_count n (trace s') = invocation_count n (trace s')"
proof -
  define I where "I = (\<lambda>(j::nat) (s::'a state).
      \<forall>n. before_stage_count n (trace s) = invocation_count n (trace s))"
  from process_shape [OF run] obtain s1 s2 rf L0 where q0: "list_all quiet L0"
    and t1: "trace s1 = trace s @ hook_tr P ''before:pipeline'' P_message L0"
    and ma1: "message_actions s1 \<noteq> None" and res1: "result s1 = initial_result"
    and fs: "for_stages P 0 (stages P) s1 = (rf, s2)"
    and fin: "(\<exists>e. rf = Inl e \<and> r = Inl e \<and> s' = s2)
       \<or> (rf = Inr () \<and> r = Inr (result s2) \<and> result s' = result s2
          \<and> (\<exists>L1. list_all quiet L1
               \<and> trace s' = trace s2 @ hook_tr P ''after:pipeline'' (P_result (result s2)) L1))"
    by blast
  have I1: "I 0 s1"
    unfolding I_def using t1 fresh q0 by (simp add: counts_hook_tr)
  have ns1: "\<not> stop (result s1)" using res1 by (simp add: initial_result_def)
  have "(\<exists>j. I j s2) \<and> message_actions s2 \<noteq> None
      \<and> (\<forall>e. rf = Inl e \<longrightarrow> \<not> stop (result s2))"
  proof (rule for_stages_rule [where I = I, OF fs I1 ns1 ma1])
    fix j a s r s'
    assume inv: "I (0 + j) s" and ma: "message_actions s \<noteq> None"
      and lb: "loop_body P (0 + j) (stages P ! j) a s = (r, s')"
    from loop_body_turn [OF lb ma] obtain tr v e where
      "trace s' = trace s @ tr"
      "returned_turn P (0 + j) (stageName_of (stages P ! j)) v tr
       \<or> thrown_turn P (0 + j) (stageName_of (stages P ! j)) e tr"
      by blast
    with inv counts_turn [OF _ hooked] show "I (0 + j) s'"
      unfolding I_def by simp
  next
    fix j s
    assume "I j s"
    then show "I (Suc j) s" by (simp add: I_def)
  qed
  then have I2: "before_stage_count n (trace s2) = invocation_count n (trace s2)"
    by (simp add: I_def)
  from fin show ?thesis
  proof
    assume "\<exists>e. rf = Inl e \<and> r = Inl e \<and> s' = s2"
    with I2 show ?thesis by auto
  next
    assume "rf = Inr () \<and> r = Inr (result s2) \<and> result s' = result s2
          \<and> (\<exists>L1. list_all quiet L1
               \<and> trace s' = trace s2 @ hook_tr P ''after:pipeline'' (P_result (result s2)) L1)"
    with I2 show ?thesis by (auto simp: counts_hook_tr)
  qed
qed

theorem before_stage_per_attempt_witness:
  "hooks (retrying (Some 3)) \<noteq> None
   \<and> invocation_count ''flakey'' (trace (snd (process (retrying (Some 3)) (fresh 0)))) = 3
   \<and> before_stage_count ''flakey'' (trace (snd (process (retrying (Some 3)) (fresh 0)))) = 3"
proof -
  obtain r s' where run: "process (retrying (Some 3)) (fresh 0) = (r, s')" by fastforce
  have ev: "invocation_count ''flakey'' (trace s') = 3"
    using run by (auto simp: ex_defs js_defs eh_defs pl_defs invocation_count_def)
  have fresh: "trace (fresh (0::nat)) = []" by (simp add: fresh_def)
  have hooked: "hooks (retrying (Some 3)) \<noteq> None" by (simp add: ex_defs)
  from before_stage_per_attempt [OF run fresh hooked, of "''flakey''"] ev hooked
  show ?thesis using run by simp
qed

lemma stage_hooks_append:
  "stage_hooks xs \<Longrightarrow> stage_hooks (xs @ ys) = stage_hooks ys"
  by (induction xs rule: stage_hooks.induct) simp_all

lemma stage_hooks_names:
  "stage_hooks xs \<Longrightarrow> filter (\<lambda>x. fst x = ''after:pipeline'') xs = []"
proof (induction xs rule: stage_hooks.induct)
  case 1
  show ?case by simp
next
  case (2 x)
  then show ?case by simp
next
  case (3 x y rest)
  then have "stage_pair x y" "stage_hooks rest" by simp_all
  from this(1) have "fst x = ''before:stage''" "fst y = ''after:stage'' \<or> fst y = ''error:stage''"
    by (cases x; cases y; cases "snd x"; cases "snd y"; simp)+
  with 3 \<open>stage_hooks rest\<close> show ?case by auto
qed

lemma emitted_turn:
  assumes "returned_turn P i m v tr \<or> thrown_turn P i m e tr" and "hooks P \<noteq> None"
  shows "\<exists>x y. emitted tr = [x, y] \<and> stage_pair x y"
proof -
  from turn_form [OF assms(1)] obtain L1 L2 L3 x h d where
    q: "list_all quiet L1" "list_all quiet L2" "list_all quiet L3"
    and tr: "tr = hook_tr P ''before:stage'' (P_stage m) L1 @ [Invoke i m, x] @ hook_tr P h d L2 @ L3"
    and x: "x = Return i m v \<and> h = ''after:stage'' \<and> d = P_stage_result m v
        \<or> x = Throw i m e \<and> h = ''error:stage'' \<and> d = P_stage_error m e"
    by blast
  have "emitted tr = [(''before:stage'', P_stage m), (h, d)]"
    unfolding tr using q x assms(2) by (auto simp: emitted_hook_tr)
  moreover have "stage_pair (''before:stage'', P_stage m) (h, d)"
    using x by auto
  ultimately show ?thesis by blast
qed

lemma observed_append [simp]: "observed (xs @ ys) = observed xs @ observed ys"
  by (simp add: observed_def)

lemma observed_quiet: "list_all quiet L \<Longrightarrow> observed L = []"
  by (induction L) (simp_all add: observed_def)

lemma observed_hook_tr:
  "list_all quiet L \<Longrightarrow> observed (hook_tr P h d L) = (if hooks P = None then [] else [Emit h d])"
  using observed_quiet [of L] by (simp add: hook_tr_def observed_def)

lemma observed_turn:
  assumes "returned_turn P i m v tr \<or> thrown_turn P i m e tr" and "hooks P \<noteq> None"
  shows "\<exists>b c out a. observed tr = [b, c, out, a] \<and> stage_turn b c out a"
proof -
  from turn_form [OF assms(1)] obtain L1 L2 L3 x h d where
    q: "list_all quiet L1" "list_all quiet L2" "list_all quiet L3"
    and tr: "tr = hook_tr P ''before:stage'' (P_stage m) L1 @ [Invoke i m, x] @ hook_tr P h d L2 @ L3"
    and x: "x = Return i m v \<and> h = ''after:stage'' \<and> d = P_stage_result m v
        \<or> x = Throw i m e \<and> h = ''error:stage'' \<and> d = P_stage_error m e"
    by blast
  define mid where "mid = [Invoke i m, x]"
  have tr': "tr = hook_tr P ''before:stage'' (P_stage m) L1 @ mid @ hook_tr P h d L2 @ L3"
    by (simp add: tr mid_def)
  have "observed mid = [Invoke i m, x]"
    using x by (auto simp: mid_def observed_def)
  then have "observed tr = [Emit ''before:stage'' (P_stage m), Invoke i m, x, Emit h d]"
    unfolding tr' using q assms(2) by (simp add: observed_hook_tr observed_quiet)
  moreover have "stage_turn (Emit ''before:stage'' (P_stage m)) (Invoke i m) x (Emit h d)"
    using x by (auto simp: stage_turn_def)
  ultimately show ?thesis by blast
qed

lemma stage_turns_append:
  "stage_turns es \<Longrightarrow> stage_turn b c out a \<Longrightarrow> stage_turns (es @ [b, c, out, a])"
  by (induction es rule: stage_turns.induct) simp_all

text \<open>
  C3, as the code has it.  With a hook manager attached, the emissions and the calls of
  stages of a run that returns are, in this order: \<open>before:pipeline\<close>; then, for every
  call of a stage, \<open>before:stage\<close>, the call, and \<open>after:stage\<close> with what the stage
  returned when the call returned, \<open>error:stage\<close> with what it threw when the call threw
  (and then no \<open>after:stage\<close>); then \<open>after:pipeline\<close> with the result, once and last,
  whether the run stopped early or not.
\<close>

theorem hook_emission_order:
  assumes run: "process P s = (Inr res, s')" and fresh: "trace s = []"
    and hooked: "hooks P \<noteq> None"
  shows "run_order res (observed (trace s'))
    \<and> hook_order res (emitted (trace s'))
    \<and> length (filter (\<lambda>x. fst x = ''after:pipeline'') (emitted (trace s'))) = 1"
proof -
  define I where "I = (\<lambda>(j::nat) (s::'a state).
      (\<exists>mid. emitted (trace s) = (''before:pipeline'', P_message) # mid \<and> stage_hooks mid)
      \<and> (\<exists>turns. observed (trace s) = Emit ''before:pipeline'' P_message # turns
            \<and> stage_turns turns))"
  from process_returned [OF run] obtain s1 s2 L0 L1 where q0: "list_all quiet L0"
    and q1: "list_all quiet L1"
    and t1: "trace s1 = trace s @ hook_tr P ''before:pipeline'' P_message L0"
    and ma1: "message_actions s1 \<noteq> None" and res1: "result s1 = initial_result"
    and fs: "for_stages P 0 (stages P) s1 = (Inr (), s2)"
    and fin: "res = result s2"
      "trace s' = trace s2 @ hook_tr P ''after:pipeline'' (P_result (result s2)) L1"
    by blast
  have I1: "I 0 s1"
    unfolding I_def using t1 fresh q0 hooked by (simp add: emitted_hook_tr observed_hook_tr)
  have ns1: "\<not> stop (result s1)" using res1 by (simp add: initial_result_def)
  have "(\<exists>j. I j s2) \<and> message_actions s2 \<noteq> None
      \<and> (\<forall>e. (Inr () :: thrown + unit) = Inl e \<longrightarrow> \<not> stop (result s2))"
  proof (rule for_stages_rule [where I = I, OF fs I1 ns1 ma1])
    fix j a s r s'
    assume inv: "I (0 + j) s" and ma: "message_actions s \<noteq> None"
      and lb: "loop_body P (0 + j) (stages P ! j) a s = (r, s')"
    from loop_body_turn [OF lb ma] obtain tr v e where
      tr: "trace s' = trace s @ tr"
      and turn: "returned_turn P (0 + j) (stageName_of (stages P ! j)) v tr
       \<or> thrown_turn P (0 + j) (stageName_of (stages P ! j)) e tr"
      by blast
    from emitted_turn [OF turn hooked] obtain x y where
      xy: "emitted tr = [x, y]" "stage_pair x y"
      by blast
    from observed_turn [OF turn hooked] obtain b c out a where
      bcoa: "observed tr = [b, c, out, a]" "stage_turn b c out a"
      by blast
    from inv obtain mid turns where
      mid: "emitted (trace s) = (''before:pipeline'', P_message) # mid" "stage_hooks mid"
      and turns: "observed (trace s) = Emit ''before:pipeline'' P_message # turns"
        "stage_turns turns"
      unfolding I_def by blast
    have "emitted (trace s') = (''before:pipeline'', P_message) # (mid @ [x, y])"
      using tr mid xy by simp
    moreover have "stage_hooks (mid @ [x, y])"
      using mid(2) xy(2) by (simp add: stage_hooks_append)
    moreover have "observed (trace s') = Emit ''before:pipeline'' P_message # (turns @ [b, c, out, a])"
      using tr turns bcoa by simp
    moreover have "stage_turns (turns @ [b, c, out, a])"
      using turns(2) bcoa(2) by (rule stage_turns_append)
    ultimately show "I (0 + j) s'" unfolding I_def by blast
  next
    fix j s
    assume "I j s"
    then show "I (Suc j) s" by (simp add: I_def)
  qed
  then obtain mid turns where
    mid: "emitted (trace s2) = (''before:pipeline'', P_message) # mid" "stage_hooks mid"
    and turns: "observed (trace s2) = Emit ''before:pipeline'' P_message # turns"
      "stage_turns turns"
    unfolding I_def by blast
  from q1 fin(2) have all: "emitted (trace s') =
      (''before:pipeline'', P_message) # mid @ [(''after:pipeline'', P_result res)]"
    using mid hooked fin(1) by (simp add: emitted_hook_tr)
  from q1 fin(2) have seen: "observed (trace s') =
      Emit ''before:pipeline'' P_message # turns @ [Emit ''after:pipeline'' (P_result res)]"
    using turns hooked fin(1) by (simp add: observed_hook_tr)
  have "run_order res (observed (trace s'))"
    unfolding seen run_order_def using turns(2) by simp
  moreover have "hook_order res (emitted (trace s'))"
    unfolding all hook_order_def using mid(2) by simp
  moreover have "length (filter (\<lambda>x. fst x = ''after:pipeline'') (emitted (trace s'))) = 1"
    unfolding all using stage_hooks_names [OF mid(2)] by simp
  ultimately show ?thesis by blast
qed

text \<open>
  A stage that throws and is skipped, a stage that returns the stop signal, a third stage
  that is not called.
\<close>

theorem hook_emission_order_witness:
  "hooks blocking \<noteq> None
   \<and> observed (trace (snd (process blocking (fresh 0)))) =
       [Emit ''before:pipeline'' P_message,
        Emit ''before:stage'' (P_stage ''boom''), Invoke 0 ''boom'',
        Throw 0 ''boom'' (ErrorObj ''Error'' VUndefined ''x''),
        Emit ''error:stage'' (P_stage_error ''boom'' (ErrorObj ''Error'' VUndefined ''x'')),
        Emit ''before:stage'' (P_stage ''s1''), Invoke 1 ''s1'', Return 1 ''s1'' blocked,
        Emit ''after:stage'' (P_stage_result ''s1'' blocked),
        Emit ''after:pipeline'' (P_result
          \<lparr>stop = True, metadata = [(''stop'', VBool True), (''reason'', VStr ''blocked'')],
           actions = [], error = None, errorStage = None\<rparr>)]
   \<and> run_order
        \<lparr>stop = True, metadata = [(''stop'', VBool True), (''reason'', VStr ''blocked'')],
          actions = [], error = None, errorStage = None\<rparr>
        (observed (trace (snd (process blocking (fresh 0)))))"
proof -
  let ?res = "\<lparr>stop = True, metadata = [(''stop'', VBool True), (''reason'', VStr ''blocked'')],
            actions = [], error = None, errorStage = None\<rparr>"
  obtain r s' where run: "process blocking (fresh 0) = (r, s')" by fastforce
  have ev: "r = Inr ?res
      \<and> observed (trace s') =
       [Emit ''before:pipeline'' P_message,
        Emit ''before:stage'' (P_stage ''boom''), Invoke 0 ''boom'',
        Throw 0 ''boom'' (ErrorObj ''Error'' VUndefined ''x''),
        Emit ''error:stage'' (P_stage_error ''boom'' (ErrorObj ''Error'' VUndefined ''x'')),
        Emit ''before:stage'' (P_stage ''s1''), Invoke 1 ''s1'', Return 1 ''s1'' blocked,
        Emit ''after:stage'' (P_stage_result ''s1'' blocked),
        Emit ''after:pipeline'' (P_result ?res)]"
    using run by (auto simp: ex_defs js_defs eh_defs pl_defs observed_def)
  have fresh: "trace (fresh (0::nat)) = []" by (simp add: fresh_def)
  have hooked: "hooks blocking \<noteq> None" by (simp add: ex_defs)
  from ev run have run': "process blocking (fresh 0) = (Inr ?res, s')"
    by simp
  from hook_emission_order [OF run' fresh hooked] have "run_order ?res (observed (trace s'))"
    by simp
  with ev hooked show ?thesis using run by simp
qed

text \<open>
  A stage that throws and is skipped: \<open>after:stage\<close> is not emitted for it, which the
  order of the specification asks for.
\<close>

theorem hook_emission_order_counterexample:
  "map fst (emitted (trace (snd (process hooked_boom (fresh 0))))) =
     [''before:pipeline'', ''before:stage'', ''error:stage'', ''after:pipeline'']
   \<and> \<not> spec_hook_order (map fst (emitted (trace (snd (process hooked_boom (fresh 0))))))"
proof -
  obtain r s' where run: "process hooked_boom (fresh 0) = (r, s')" by fastforce
  have "map fst (emitted (trace s')) =
     [''before:pipeline'', ''before:stage'', ''error:stage'', ''after:pipeline'']"
    using run by (auto simp: ex_defs js_defs eh_defs pl_defs)
  then show ?thesis using run by (simp add: spec_hook_order_def)
qed

section \<open>Pipeline: a stop signal ends the run\<close>

lemma map_of_fold_update:
  "distinct (map fst ps) \<Longrightarrow>
   map_of (fold (\<lambda>(k, v) acc. AList.update k v acc) ps a) = map_of a ++ map_of ps"
proof (induction ps arbitrary: a)
  case Nil
  show ?case by simp
next
  case (Cons p ps)
  obtain k v where p: "p = (k, v)" by (cases p)
  with Cons.prems have fresh: "k \<notin> dom (map_of ps)" and d: "distinct (map fst ps)"
    by (auto simp: dom_map_of_conv_image_fst)
  have "map_of (fold (\<lambda>(k, v) acc. AList.update k v acc) (p # ps) a)
      = map_of (AList.update k v a) ++ map_of ps"
    using Cons.IH [OF d] p by simp
  also have "\<dots> = (map_of a ++ map_of ps)(k \<mapsto> v)"
    using fresh by (simp add: update_conv' map_add_upd_left)
  also have "\<dots> = map_of a ++ map_of (p # ps)"
    using p by simp
  finally show ?case .
qed

lemma map_of_spread: "map_of (spread a b) = map_of a ++ map_of (own_props b)"
proof -
  have "distinct (map fst (own_props b))"
    by (cases b) (simp_all add: distinct_clearjunk)
  then show ?thesis unfolding spread_def by (rule map_of_fold_update)
qed

lemma opt_chain_spread:
  assumes "truthy (opt_chain sig ''stop'')"
  shows "opt_chain (VObj (spread [] sig)) key = opt_chain sig key"
proof (cases sig)
  case (VObj kvs)
  then show ?thesis by (simp add: map_of_spread map_of_clearjunk)
qed (use assms in simp_all)

lemma quiet_not_call:
  assumes "list_all quiet L"
  shows "Invoke k m \<notin> set L" and "Return k m v \<notin> set L" and "Throw k m e \<notin> set L"
  using assms by (auto simp: list_all_iff)

lemma hook_tr_not_call:
  assumes "list_all quiet L"
  shows "Invoke k m \<notin> set (hook_tr P h d L)" and "Return k m v \<notin> set (hook_tr P h d L)"
    and "Throw k m e \<notin> set (hook_tr P h d L)"
  using quiet_not_call [OF assms] by (auto simp: hook_tr_def)

lemma returned_turn_calls:
  assumes "returned_turn P i n v tr"
  shows "Invoke k m \<in> set tr \<longleftrightarrow> k = i \<and> m = n"
    and "Return k m v' \<in> set tr \<longleftrightarrow> k = i \<and> m = n \<and> v' = v"
    and "Throw k m e \<notin> set tr"
  using assms unfolding returned_turn_def
  by (auto simp: hook_tr_not_call)

lemma thrown_turn_calls:
  assumes "thrown_turn P i n e tr"
  shows "Invoke k m \<in> set tr \<longleftrightarrow> k = i \<and> m = n"
    and "Return k m v \<notin> set tr"
    and "Throw k m e' \<in> set tr \<longleftrightarrow> k = i \<and> m = n \<and> e' = e"
  using assms unfolding thrown_turn_def
  by (auto simp: hook_tr_not_call quiet_not_call)

lemma stop_inv_step:
  assumes inv: "stop_inv P j s" and ns: "\<not> stop (result s)" and ma: "message_actions s \<noteq> None"
    and j: "j < length (stages P)" and run: "loop_body P j (stages P ! j) a s = (r, s')"
  shows "stop_inv P j s'"
proof -
  let ?n = "stageName_of (stages P ! j)"
  from inv ns have old_calls: "\<And>k m. Invoke k m \<in> set (trace s) \<Longrightarrow>
        k \<le> j \<and> k < length (stages P) \<and> m = stageName_of (stages P ! k)"
    and no_signal: "\<And>k m v. Return k m v \<in> set (trace s) \<Longrightarrow> \<not> truthy (opt_chain v ''stop'')"
    and md: "metadata (result s) = []"
    unfolding stop_inv_def by blast+
  from loop_body_spec [OF run ma] consider
    (returned) v tr where "returned_turn P j ?n v tr" "trace s' = trace s @ tr"
      "returned_effect v s s'"
    | (threw) e tr where "thrown_turn P j ?n e tr" "trace s' = trace s @ tr"
      "result s' = result s \<or> result s' = stopped_with e ?n (result s)"
    by blast
  then show ?thesis
  proof cases
    case returned
    have calls: "\<And>k m. Invoke k m \<in> set (trace s') \<Longrightarrow>
        k \<le> j \<and> k < length (stages P) \<and> m = stageName_of (stages P ! k)"
      using old_calls j returned(2) returned_turn_calls(1) [OF returned(1)] by auto
    have signal: "k = j \<and> stop (result s') \<and> metadata (result s') = spread [] v'"
      if "Return k m v' \<in> set (trace s')" "truthy (opt_chain v' ''stop'')" for k m v'
    proof -
      from that no_signal returned(2) have "Return k m v' \<in> set tr" by auto
      with returned_turn_calls(2) [OF returned(1)] have "k = j" "v' = v" by auto
      with that(2) returned(3) md show ?thesis by (simp add: returned_effect_def)
    qed
    have "metadata (result s') = []" if "\<not> stop (result s')"
      using that returned(3) md ns
      by (auto simp: returned_effect_def verdict_kept_def split: if_splits)
    with calls signal show ?thesis unfolding stop_inv_def by blast
  next
    case threw
    have calls: "\<And>k m. Invoke k m \<in> set (trace s') \<Longrightarrow>
        k \<le> j \<and> k < length (stages P) \<and> m = stageName_of (stages P ! k)"
      using old_calls j threw(2) thrown_turn_calls(1) [OF threw(1)] by auto
    have signal: "\<not> truthy (opt_chain v' ''stop'')" if "Return k m v' \<in> set (trace s')" for k m v'
      using that no_signal threw(2) thrown_turn_calls(2) [OF threw(1)] by auto
    have "metadata (result s') = []"
      using threw(3) md by (auto simp: stopped_with_def)
    with calls signal show ?thesis unfolding stop_inv_def by blast
  qed
qed

text \<open>
  C1.  In a run, when the stage at place \<open>k\<close> returns a value whose \<open>stop\<close> property is
  truthy, no stage at a place behind \<open>k\<close> is called in that run, \<open>process\<close> returns a
  result with \<open>stop\<close> set, and the metadata of the result are the properties of the
  returned value: every key reads in the metadata as it reads in the signal
  (\<open>reason\<close> among them).
\<close>

theorem stop_signal_halts_run:
  assumes run: "process P s = (r, s')" and fresh: "trace s = []"
    and returned: "Return k n sig \<in> set (trace s')"
    and signal: "truthy (opt_chain sig ''stop'')"
  shows "(\<forall>j m. k < j \<longrightarrow> Invoke j m \<notin> set (trace s'))
    \<and> (\<exists>res. r = Inr res \<and> stop res \<and> metadata res = spread [] sig
          \<and> (\<forall>key. opt_chain (VObj (metadata res)) key = opt_chain sig key))"
proof -
  from process_shape [OF run] obtain s1 s2 rf L0 where q0: "list_all quiet L0"
    and t1: "trace s1 = trace s @ hook_tr P ''before:pipeline'' P_message L0"
    and ma1: "message_actions s1 \<noteq> None" and res1: "result s1 = initial_result"
    and fs: "for_stages P 0 (stages P) s1 = (rf, s2)"
    and fin: "(\<exists>e. rf = Inl e \<and> r = Inl e \<and> s' = s2)
       \<or> (rf = Inr () \<and> r = Inr (result s2) \<and> result s' = result s2
          \<and> (\<exists>L1. list_all quiet L1
               \<and> trace s' = trace s2 @ hook_tr P ''after:pipeline'' (P_result (result s2)) L1))"
    by blast
  have ns1: "\<not> stop (result s1)" using res1 by (simp add: initial_result_def)
  have I1: "stop_inv P 0 s1"
    unfolding stop_inv_def using t1 fresh res1
    by (simp add: initial_result_def hook_tr_not_call [OF q0])
  have "(\<exists>j. stop_inv P j s2) \<and> message_actions s2 \<noteq> None
      \<and> (\<forall>e. rf = Inl e \<longrightarrow> \<not> stop (result s2))"
  proof (rule for_stages_rule [where I = "stop_inv P", OF fs I1 ns1 ma1])
    fix j a s r s'
    assume "j < length (stages P)" "stop_inv P (0 + j) s" "\<not> stop (result s)"
      "message_actions s \<noteq> None" "loop_body P (0 + j) (stages P ! j) a s = (r, s')"
    then show "stop_inv P (0 + j) s'"
      using stop_inv_step [of P j s a r s'] by simp
  next
    fix j s
    assume "stop_inv P j s" "\<not> stop (result s)"
    then show "stop_inv P (Suc j) s"
      unfolding stop_inv_def by (meson le_Suc_eq)
  qed
  then obtain j where I2: "stop_inv P j s2" and thrown: "\<And>e. rf = Inl e \<Longrightarrow> \<not> stop (result s2)"
    by blast
  have calls: "Invoke i m \<in> set (trace s') \<longleftrightarrow> Invoke i m \<in> set (trace s2)"
    and rets: "Return i m v \<in> set (trace s') \<longleftrightarrow> Return i m v \<in> set (trace s2)" for i m v
    using fin by (auto simp: hook_tr_not_call)
  from returned rets have "Return k n sig \<in> set (trace s2)" by simp
  with I2 signal have kj: "k = j" and stopped: "stop (result s2)"
    and md: "metadata (result s2) = spread [] sig"
    unfolding stop_inv_def by blast+
  from stopped thrown fin have r: "r = Inr (result s2)" by auto
  have "Invoke i m \<notin> set (trace s')" if "k < i" for i m
    using that I2 kj calls unfolding stop_inv_def by (metis not_le)
  moreover have "\<forall>key. opt_chain (VObj (metadata (result s2))) key = opt_chain sig key"
    unfolding md using opt_chain_spread [OF signal] by simp
  ultimately show ?thesis using r stopped md by blast
qed

theorem stop_signal_halts_run_witness:
  "Return 1 ''s1'' blocked \<in> set (trace (snd (process blocking (fresh 0))))
   \<and> truthy (opt_chain blocked ''stop'')
   \<and> Invoke 2 ''s2'' \<notin> set (trace (snd (process blocking (fresh 0))))
   \<and> world (snd (process blocking (fresh 0))) = 2
   \<and> fst (process blocking (fresh 0)) =
       Inr \<lparr>stop = True, metadata = [(''stop'', VBool True), (''reason'', VStr ''blocked'')],
            actions = [], error = None, errorStage = None\<rparr>"
proof -
  obtain r s' where run: "process blocking (fresh 0) = (r, s')" by fastforce
  have ev: "r = Inr \<lparr>stop = True, metadata = [(''stop'', VBool True), (''reason'', VStr ''blocked'')],
            actions = [], error = None, errorStage = None\<rparr>
      \<and> world s' = 2 \<and> Return 1 ''s1'' blocked \<in> set (trace s')"
    using run by (auto simp: ex_defs js_defs eh_defs pl_defs)
  have sig: "truthy (opt_chain blocked ''stop'')" by (simp add: blocked_def)
  have fresh: "trace (fresh (0::nat)) = []" by (simp add: fresh_def)
  from stop_signal_halts_run [OF run fresh _ sig, of 1 "''s1''"] ev
  have "Invoke 2 ''s2'' \<notin> set (trace s')" by simp
  with ev sig show ?thesis using run by simp
qed

section \<open>Pipeline: the retry budget\<close>

lemma invocations_at_append [simp]:
  "invocations_at k (xs @ ys) = invocations_at k xs + invocations_at k ys"
  by (simp add: invocations_at_def)

lemma invocations_at_Nil [simp]: "invocations_at k [] = 0"
  by (simp add: invocations_at_def)

lemma invocations_at_quiet: "list_all quiet L \<Longrightarrow> invocations_at k L = 0"
  by (simp add: invocations_at_def filter_quiet quiet_not_invoked_at)

lemma invocations_at_hook_tr: "list_all quiet L \<Longrightarrow> invocations_at k (hook_tr P h d L) = 0"
  using invocations_at_quiet [of L k] by (simp add: hook_tr_def invocations_at_def)

lemma invocations_at_turn:
  assumes "returned_turn P i m v tr \<or> thrown_turn P i m e tr"
  shows "invocations_at k tr = (if k = i then 1 else 0)"
proof -
  from turn_form [OF assms(1)] obtain L1 L2 L3 x h d where
    q: "list_all quiet L1" "list_all quiet L2" "list_all quiet L3"
    and tr: "tr = hook_tr P ''before:stage'' (P_stage m) L1 @ [Invoke i m, x] @ hook_tr P h d L2 @ L3"
    and x: "x = Return i m v \<or> x = Throw i m e"
    by blast
  define mid where "mid = [Invoke i m, x]"
  have tr': "tr = hook_tr P ''before:stage'' (P_stage m) L1 @ mid @ hook_tr P h d L2 @ L3"
    by (simp add: tr mid_def)
  have "invocations_at k mid = (if k = i then 1 else 0)"
    using x by (auto simp: invocations_at_def mid_def)
  then show ?thesis
    unfolding tr' using q by (simp add: invocations_at_hook_tr invocations_at_quiet)
qed

lemma stage_while_invocations:
  "stage_while P i st ac s = (r, s') \<Longrightarrow> message_actions s \<noteq> None \<Longrightarrow>
   \<exists>tr. trace s' = trace s @ tr \<and> message_actions s' \<noteq> None
     \<and> (\<forall>k. k \<noteq> i \<longrightarrow> invocations_at k tr = 0)
     \<and> int (invocations_at i tr)
         \<le> (if snd ac then 0 else max 1 (maxAttempts_of P (stageName_of st) - int (fst ac)))"
proof (induction P i st ac s arbitrary: r s' rule: stage_while.induct)
  case (1 P i st attempt s)
  then show ?case by (intro exI [of _ "[]"]) auto
next
  case (2 P i st attempt s)
  let ?M = "maxAttempts_of P (stageName_of st)"
  obtain r1 s1 where lb: "loop_body P i st attempt s = (r1, s1)" by fastforce
  from loop_body_spec [OF lb "2.prems"(2)] obtain tr1 v e where ma1: "message_actions s1 \<noteq> None"
    and t1: "trace s1 = trace s @ tr1"
    and turn: "returned_turn P i (stageName_of st) v tr1 \<or> thrown_turn P i (stageName_of st) e tr1"
    and again: "\<And>a'. r1 = Inr (a', False) \<Longrightarrow> a' = attempt + 1 \<and> int (attempt + 1) < ?M"
    by auto
  have c1: "invocations_at k tr1 = (if k = i then 1 else 0)" for k
    using invocations_at_turn [OF turn] .
  show ?case
  proof (cases r1)
    case (Inl x)
    with lb "2.prems"(1) have "s' = s1" by simp
    with t1 ma1 c1 show ?thesis by (intro exI [of _ tr1]) auto
  next
    case (Inr vars)
    with lb "2.prems"(1) have run': "stage_while P i st vars s1 = (r, s')" by simp
    from "2.IH" [OF lb [symmetric] Inr run' ma1] obtain tr2 where
      t2: "trace s' = trace s1 @ tr2" and ma2: "message_actions s' \<noteq> None"
      and others: "\<forall>k. k \<noteq> i \<longrightarrow> invocations_at k tr2 = 0"
      and bound: "int (invocations_at i tr2)
         \<le> (if snd vars then 0 else max 1 (?M - int (fst vars)))"
      by blast
    have "int (invocations_at i (tr1 @ tr2)) \<le> max 1 (?M - int attempt)"
    proof (cases "snd vars")
      case True
      with bound c1 [of i] show ?thesis by simp
    next
      case False
      with again [of "fst vars"] Inr have "fst vars = attempt + 1" "int (attempt + 1) < ?M"
        by (cases vars; simp)+
      with bound False c1 [of i] show ?thesis by simp
    qed
    with t1 t2 ma2 others c1 show ?thesis
      by (intro exI [of _ "tr1 @ tr2"]) simp
  qed
qed

lemma for_stages_invocations:
  "for_stages P i sts s = (r, s') \<Longrightarrow> message_actions s \<noteq> None \<Longrightarrow>
   \<exists>tr. trace s' = trace s @ tr \<and> message_actions s' \<noteq> None
     \<and> (\<forall>k. int (invocations_at k tr)
             \<le> (if i \<le> k \<and> k < i + length sts
                 then max 1 (maxAttempts_of P (stageName_of (sts ! (k - i)))) else 0))"
proof (induction sts arbitrary: i s)
  case Nil
  then show ?case by (intro exI [of _ "[]"]) auto
next
  case (Cons st rest)
  obtain r1 s1 where sw: "stage_while P i st (0, False) s = (r1, s1)" by fastforce
  from stage_while_invocations [OF sw Cons.prems(2)] obtain tr1 where
    t1: "trace s1 = trace s @ tr1" and ma1: "message_actions s1 \<noteq> None"
    and others: "\<And>k. k \<noteq> i \<Longrightarrow> invocations_at k tr1 = 0"
    and here: "int (invocations_at i tr1) \<le> max 1 (maxAttempts_of P (stageName_of st))"
    by auto
  have first: "int (invocations_at k tr1)
             \<le> (if i \<le> k \<and> k < i + length (st # rest)
                 then max 1 (maxAttempts_of P (stageName_of ((st # rest) ! (k - i)))) else 0)" for k
    using others [of k] here by (cases "k = i") auto
  show ?case
  proof (cases "\<exists>u. r1 = Inr u \<and> \<not> stop (result s1)")
    case False
    with sw Cons.prems(1) have "s' = s1" by (cases r1) auto
    with t1 ma1 first show ?thesis by (intro exI [of _ tr1]) simp
  next
    case True
    with sw Cons.prems(1) have run': "for_stages P (Suc i) rest s1 = (r, s')" by auto
    from Cons.IH [OF run' ma1] obtain tr2 where
      t2: "trace s' = trace s1 @ tr2" and ma2: "message_actions s' \<noteq> None"
      and rest: "\<And>k. int (invocations_at k tr2)
             \<le> (if Suc i \<le> k \<and> k < Suc i + length rest
                 then max 1 (maxAttempts_of P (stageName_of (rest ! (k - Suc i)))) else 0)"
      by blast
    have "int (invocations_at k (tr1 @ tr2))
             \<le> (if i \<le> k \<and> k < i + length (st # rest)
                 then max 1 (maxAttempts_of P (stageName_of ((st # rest) ! (k - i)))) else 0)" for k
    proof (cases "k = i")
      case True
      with rest [of k] here show ?thesis by simp
    next
      case False
      with rest [of k] others [of k] show ?thesis
        by (auto simp: nth_Cons' Suc_diff_Suc split: if_splits)
    qed
    with t1 t2 ma2 show ?thesis by (intro exI [of _ "tr1 @ tr2"]) simp
  qed
qed

lemma process_invocations:
  assumes run: "process P s = (r, s')" and fresh: "trace s = []" and k: "k < length (stages P)"
  shows "int (invocations_at k (trace s')) \<le> max 1 (maxAttempts_of P (stageName_of (stages P ! k)))"
proof -
  from process_shape [OF run] obtain s1 s2 rf L0 where q0: "list_all quiet L0"
    and t1: "trace s1 = trace s @ hook_tr P ''before:pipeline'' P_message L0"
    and ma1: "message_actions s1 \<noteq> None"
    and fs: "for_stages P 0 (stages P) s1 = (rf, s2)"
    and fin: "(\<exists>e. rf = Inl e \<and> r = Inl e \<and> s' = s2)
       \<or> (rf = Inr () \<and> r = Inr (result s2) \<and> result s' = result s2
          \<and> (\<exists>L1. list_all quiet L1
               \<and> trace s' = trace s2 @ hook_tr P ''after:pipeline'' (P_result (result s2)) L1))"
    by blast
  from for_stages_invocations [OF fs ma1] obtain tr where t2: "trace s2 = trace s1 @ tr"
    and "int (invocations_at k tr)
             \<le> (if 0 \<le> k \<and> k < 0 + length (stages P)
                 then max 1 (maxAttempts_of P (stageName_of (stages P ! (k - 0)))) else 0)"
    by blast
  with k have b: "int (invocations_at k tr) \<le> max 1 (maxAttempts_of P (stageName_of (stages P ! k)))"
    by simp
  have "invocations_at k (trace s') = invocations_at k tr"
    using fin t1 t2 fresh q0 by (auto simp: invocations_at_hook_tr)
  with b show ?thesis by simp
qed

text \<open>A stage with the strategy \<open>retry\<close> and \<open>maxRetries = m\<close>, at least 1, that threw.\<close>

lemma retry_catch:
  assumes eh: "errorHandler P = Some eh"
    and str: "recoveryStrategies eh (stageName_of st) = Some str" "strategy str = ''retry''"
      "maxRetries str = Some m" "1 \<le> m"
    and run: "catch_stage P st a (ErrorObj k c msg) s = (r, s')"
  shows "(int (a + 1) < m \<longrightarrow> r = Inr (a + 1, False) \<and> result s' = result s)
    \<and> (m \<le> int (a + 1) \<longrightarrow> r = Inr (a + 1, True)
          \<and> result s' = stopped_with (ErrorObj k c msg) (stageName_of st) (result s))"
proof -
  let ?n = "stageName_of st" and ?e = "ErrorObj k c msg"
  from emit_hook_spec [of P "''error:stage''" "P_stage_error ?n ?e" s] obtain L2 s1 where
    e1: "emit_hook P ''error:stage'' (P_stage_error ?n ?e) s = (Inr (), s1)"
    and k1: "engine_state_kept s s1"
    by blast
  have M: "maxAttempts_of P ?n = m"
    using eh str by (simp add: maxAttempts_of_def)
  have h: "handle eh ?e ?n (Some (a + 1)) s1 =
      (if int (a + 1) < m
       then (Inr (recovery ''retry'' ''stage_error''),
             (counted k ?n s1)\<lparr>trace := trace s1 @ [Sleep (or_default (backoffMs str) 100 * int (a + 1))]\<rparr>)
       else (Inr (recovery ''stop'' ''max_retries''), counted k ?n s1))"
    using str
    by (simp add: handle_def bind_def updateStats_ErrorObj handleStageError_def Let_def
          or_default_def log_def modify_def ret_def counted_def)
  show ?thesis
  proof (cases "int (a + 1) < m")
    case True
    with run e1 eh h M have "r = Inr (a + 1, False)"
      "s' = (counted k ?n s1)\<lparr>trace := trace s1 @ [Sleep (or_default (backoffMs str) 100 * int (a + 1))]\<rparr>"
      by (simp_all add: catch_stage_def Let_def bind_def get_prop_def recovery_def ret_def)
    with True k1 show ?thesis by (simp add: counted_def engine_state_kept_def)
  next
    case False
    with run e1 eh h M have "r = Inr (a + 1, True)"
      "s' = (counted k ?n s1)\<lparr>result := stopped_with ?e ?n (result (counted k ?n s1))\<rparr>"
      by (simp_all add: catch_stage_def Let_def bind_def get_prop_def recovery_def ret_def
            stop_with_error_def modify_def stopped_with_def)
    with False k1 show ?thesis by (simp add: counted_def engine_state_kept_def)
  qed
qed

lemma retry_turn:
  assumes eh: "errorHandler P = Some eh"
    and str: "recoveryStrategies eh (stageName_of st) = Some str" "strategy str = ''retry''"
      "maxRetries str = Some m" "1 \<le> m"
    and throws: "always_throws st"
    and run: "loop_body P i st a s = (r, s')" and ma: "message_actions s \<noteq> None"
  shows "\<exists>e tr. thrown_turn P i (stageName_of st) e tr \<and> trace s' = trace s @ tr
    \<and> message_actions s' \<noteq> None
    \<and> (int (a + 1) < m \<longrightarrow> r = Inr (a + 1, False) \<and> result s' = result s)
    \<and> (m \<le> int (a + 1) \<longrightarrow> r = Inr (a + 1, True)
          \<and> result s' = stopped_with e (stageName_of st) (result s))"
proof -
  let ?n = "stageName_of st"
  obtain r1 s1 where t1: "try_stage P i st s = (r1, s1)" by fastforce
  have no_return: "call st w \<noteq> (Inr v, w')" for w v w'
    using throws unfolding always_throws_def by (metis Inl_Inr_False fst_conv)
  from try_stage_spec [OF t1 ma] no_return obtain e L1 where ma1: "message_actions s1 \<noteq> None"
    and r1: "r1 = Inl e" and q1: "list_all quiet L1" and res1: "result s1 = result s"
    and threw: "\<exists>w w'. call st w = (Inl e, w')"
    and tr1: "trace s1 = trace s @ hook_tr P ''before:stage'' (P_stage ?n) L1
             @ [Invoke i ?n, Throw i ?n e]"
    by blast
  from threw throws obtain k c msg where e: "e = ErrorObj k c msg"
    unfolding always_throws_def by (metis Inl_inject fst_conv)
  from run t1 r1 have c: "catch_stage P st a e s1 = (r, s')"
    by (simp add: loop_body_def try_catch_def bind_def)
  from catch_stage_spec [OF c] obtain L2 L3 where
    ma2: "message_actions s' = message_actions s1"
    and q2: "list_all quiet L2" "list_all quiet L3"
    and tr2: "trace s' = trace s1 @ hook_tr P ''error:stage'' (P_stage_error ?n e) L2 @ L3"
    by blast
  let ?tr = "hook_tr P ''before:stage'' (P_stage ?n) L1 @ [Invoke i ?n, Throw i ?n e]
             @ hook_tr P ''error:stage'' (P_stage_error ?n e) L2 @ L3"
  have "thrown_turn P i ?n e ?tr"
    unfolding thrown_turn_def using q1 q2 by blast
  moreover have "trace s' = trace s @ ?tr" using tr1 tr2 by simp
  moreover have "message_actions s' \<noteq> None" using ma1 ma2 by simp
  moreover note retry_catch [OF eh str c [unfolded e], folded e, unfolded res1]
  ultimately show ?thesis by blast
qed

lemma retry_loop:
  assumes eh: "errorHandler P = Some eh"
    and str: "recoveryStrategies eh (stageName_of st) = Some str" "strategy str = ''retry''"
      "maxRetries str = Some m" "1 \<le> m"
    and throws: "always_throws st"
  shows "stage_while P i st (a, False) s = (r, s') \<Longrightarrow> message_actions s \<noteq> None \<Longrightarrow>
    int a < m \<Longrightarrow>
    r = Inr () \<and> message_actions s' \<noteq> None
    \<and> (\<exists>e. result s' = stopped_with e (stageName_of st) (result s))
    \<and> (\<exists>tr. trace s' = trace s @ tr \<and> int (invocations_at i tr) = m - int a)"
proof (induction "nat (m - int a)" arbitrary: a s)
  case 0
  then show ?case by simp
next
  case (Suc d)
  obtain r1 s1 where lb: "loop_body P i st a s = (r1, s1)" by fastforce
  from retry_turn [OF eh str throws lb Suc.prems(2)] obtain e tr1 where
    turn: "thrown_turn P i (stageName_of st) e tr1" and t1: "trace s1 = trace s @ tr1"
    and ma1: "message_actions s1 \<noteq> None"
    and again: "int (a + 1) < m \<Longrightarrow> r1 = Inr (a + 1, False) \<and> result s1 = result s"
    and last: "m \<le> int (a + 1) \<Longrightarrow> r1 = Inr (a + 1, True)
          \<and> result s1 = stopped_with e (stageName_of st) (result s)"
    by blast
  have c1: "invocations_at i tr1 = 1"
    using invocations_at_turn [of P i "stageName_of st" undefined tr1 e i] turn by simp
  show ?case
  proof (cases "int (a + 1) < m")
    case True
    with again lb Suc.prems(1) have run': "stage_while P i st (a + 1, False) s1 = (r, s')"
      and res1: "result s1 = result s"
      by simp_all
    have "d = nat (m - int (a + 1))" using Suc.hyps(2) by simp
    from Suc.hyps(1) [OF this run' ma1 True] obtain e' tr2 where "r = Inr ()"
      "message_actions s' \<noteq> None" "result s' = stopped_with e' (stageName_of st) (result s1)"
      "trace s' = trace s1 @ tr2" "int (invocations_at i tr2) = m - int (a + 1)"
      by blast
    with t1 c1 res1 show ?thesis
      by (intro conjI exI [of _ e'] exI [of _ "tr1 @ tr2"]) simp_all
  next
    case False
    with last lb Suc.prems(1) Suc.prems(3) have "r = Inr ()" "s' = s1"
      "result s1 = stopped_with e (stageName_of st) (result s)" "m = int a + 1"
      by simp_all
    with t1 c1 ma1 show ?thesis
      by (intro conjI exI [of _ e] exI [of _ tr1]) simp_all
  qed
qed

text \<open>The loop of a stage calls the stage at least once, and no other stage.\<close>

lemma stage_while_first:
  assumes run: "stage_while P i st (a, False) s = (r, s')" and ma: "message_actions s \<noteq> None"
  shows "\<exists>tr. trace s' = trace s @ tr \<and> message_actions s' \<noteq> None
     \<and> 1 \<le> invocations_at i tr \<and> (\<forall>k. k \<noteq> i \<longrightarrow> invocations_at k tr = 0)"
proof -
  obtain r1 s1 where lb: "loop_body P i st a s = (r1, s1)" by fastforce
  from loop_body_spec [OF lb ma] obtain tr1 v e where ma1: "message_actions s1 \<noteq> None"
    and t1: "trace s1 = trace s @ tr1"
    and turn: "returned_turn P i (stageName_of st) v tr1 \<or> thrown_turn P i (stageName_of st) e tr1"
    by auto
  have c1: "invocations_at k tr1 = (if k = i then 1 else 0)" for k
    using invocations_at_turn [OF turn] .
  show ?thesis
  proof (cases r1)
    case (Inl x)
    with lb run have "s' = s1" by simp
    with t1 ma1 c1 show ?thesis by (intro exI [of _ tr1]) simp
  next
    case (Inr vars)
    with lb run have "stage_while P i st vars s1 = (r, s')" by simp
    from stage_while_invocations [OF this ma1] obtain tr2 where
      t2: "trace s' = trace s1 @ tr2" and ma2: "message_actions s' \<noteq> None"
      and others: "\<forall>k. k \<noteq> i \<longrightarrow> invocations_at k tr2 = 0"
      by blast
    with t1 c1 show ?thesis by (intro exI [of _ "tr1 @ tr2"]) simp
  qed
qed

text \<open>
  The stages a run calls are the first \<open>p\<close> of the list, one at least, and all of them
  when the run ends without a stop.
\<close>

lemma for_stages_reach:
  "for_stages P i sts s = (r, s') \<Longrightarrow> message_actions s \<noteq> None \<Longrightarrow>
   \<exists>tr p. trace s' = trace s @ tr \<and> p \<le> length sts \<and> (sts \<noteq> [] \<longrightarrow> 1 \<le> p)
     \<and> (\<forall>k. 1 \<le> invocations_at k tr \<longleftrightarrow> i \<le> k \<and> k < i + p)
     \<and> (r = Inr () \<and> \<not> stop (result s') \<longrightarrow> p = length sts)"
proof (induction sts arbitrary: i s)
  case Nil
  then show ?case by (intro exI [of _ "[]"] exI [of _ 0]) auto
next
  case (Cons st rest)
  obtain r1 s1 where sw: "stage_while P i st (0, False) s = (r1, s1)" by fastforce
  from stage_while_first [OF sw Cons.prems(2)] obtain tr1 where
    t1: "trace s1 = trace s @ tr1" and ma1: "message_actions s1 \<noteq> None"
    and here: "1 \<le> invocations_at i tr1"
    and others: "\<And>k. k \<noteq> i \<Longrightarrow> invocations_at k tr1 = 0"
    by auto
  have first: "1 \<le> invocations_at k tr1 \<longleftrightarrow> i \<le> k \<and> k < i + 1" for k
    using others [of k] here by (cases "k = i") auto
  show ?case
  proof (cases "\<exists>u. r1 = Inr u \<and> \<not> stop (result s1)")
    case False
    with sw Cons.prems(1) have end_here: "s' = s1" "r = r1" by (cases r1; auto)+
    with False have no: "\<not> (r = Inr () \<and> \<not> stop (result s'))" by auto
    from t1 first end_here(1) no show ?thesis
      by (intro exI [of _ tr1] exI [of _ 1]) auto
  next
    case True
    with sw Cons.prems(1) have run': "for_stages P (Suc i) rest s1 = (r, s')" by auto
    from Cons.IH [OF run' ma1] obtain tr2 p where
      t2: "trace s' = trace s1 @ tr2" and p: "p \<le> length rest"
      and rest: "\<And>k. 1 \<le> invocations_at k tr2 \<longleftrightarrow> Suc i \<le> k \<and> k < Suc i + p"
      and full: "r = Inr () \<and> \<not> stop (result s') \<longrightarrow> p = length rest"
      by blast
    have "1 \<le> invocations_at k (tr1 @ tr2) \<longleftrightarrow> i \<le> k \<and> k < i + Suc p" for k
    proof (cases "k = i")
      case True
      with here show ?thesis by simp
    next
      case False
      with others [of k] rest [of k] show ?thesis by auto
    qed
    with t1 t2 p full show ?thesis
      by (intro exI [of _ "tr1 @ tr2"] exI [of _ "Suc p"]) simp
  qed
qed

lemma process_reach:
  assumes run: "process P s = (r, s')" and fresh: "trace s = []"
  shows "\<exists>p. p \<le> length (stages P) \<and> (stages P \<noteq> [] \<longrightarrow> 1 \<le> p)
     \<and> (\<forall>k. 1 \<le> invocations_at k (trace s') \<longleftrightarrow> k < p)
     \<and> (\<forall>res. r = Inr res \<and> \<not> stop res \<longrightarrow> p = length (stages P))"
proof -
  from process_shape [OF run] obtain s1 s2 rf L0 where q0: "list_all quiet L0"
    and t1: "trace s1 = trace s @ hook_tr P ''before:pipeline'' P_message L0"
    and ma1: "message_actions s1 \<noteq> None"
    and fs: "for_stages P 0 (stages P) s1 = (rf, s2)"
    and fin: "(\<exists>e. rf = Inl e \<and> r = Inl e \<and> s' = s2)
       \<or> (rf = Inr () \<and> r = Inr (result s2) \<and> result s' = result s2
          \<and> (\<exists>L1. list_all quiet L1
               \<and> trace s' = trace s2 @ hook_tr P ''after:pipeline'' (P_result (result s2)) L1))"
    by blast
  from for_stages_reach [OF fs ma1] obtain tr p where t2: "trace s2 = trace s1 @ tr"
    and p: "p \<le> length (stages P)" "stages P \<noteq> [] \<longrightarrow> 1 \<le> p"
    and calls: "\<And>k. 1 \<le> invocations_at k tr \<longleftrightarrow> 0 \<le> k \<and> k < 0 + p"
    and full: "rf = Inr () \<and> \<not> stop (result s2) \<longrightarrow> p = length (stages P)"
    by blast
  have same: "invocations_at k (trace s') = invocations_at k tr" for k
    using fin t1 t2 fresh q0 by (auto simp: invocations_at_hook_tr)
  have "p = length (stages P)" if "r = Inr res" "\<not> stop res" for res
    using that fin full by auto
  with p calls same show ?thesis
    by (intro exI [of _ p]) simp
qed

text \<open>
  A stage at any place with the strategy \<open>retry\<close> and \<open>maxRetries = m\<close>, at least 1, that
  always throws: when the run gets to it, it is called \<open>m\<close> times and the run stops there.
\<close>

lemma for_stages_retry:
  assumes eh: "errorHandler P = Some eh" and m: "1 \<le> m"
  shows "for_stages P i sts s = (r, s') \<Longrightarrow> message_actions s \<noteq> None \<Longrightarrow>
    i \<le> k \<Longrightarrow> k < i + length sts \<Longrightarrow>
    recoveryStrategies eh (stageName_of (sts ! (k - i))) = Some str \<Longrightarrow>
    strategy str = ''retry'' \<Longrightarrow> maxRetries str = Some m \<Longrightarrow> always_throws (sts ! (k - i)) \<Longrightarrow>
    \<exists>tr. trace s' = trace s @ tr
      \<and> (1 \<le> invocations_at k tr \<longrightarrow>
           int (invocations_at k tr) = m \<and> r = Inr () \<and> stop (result s')
           \<and> errorStage (result s') = Some (stageName_of (sts ! (k - i)))
           \<and> error (result s') \<noteq> None)"
proof (induction sts arbitrary: i s)
  case Nil
  then show ?case by simp
next
  case (Cons st rest)
  obtain r1 s1 where sw: "stage_while P i st (0, False) s = (r1, s1)" by fastforce
  show ?case
  proof (cases "k = i")
    case True
    with Cons.prems have str: "recoveryStrategies eh (stageName_of st) = Some str"
      "strategy str = ''retry''" "maxRetries str = Some m" and throws: "always_throws st"
      by simp_all
    from retry_loop [OF eh str m throws sw Cons.prems(2)] m obtain e tr where r1: "r1 = Inr ()"
      and res: "result s1 = stopped_with e (stageName_of st) (result s)"
      and tr: "trace s1 = trace s @ tr" and n: "int (invocations_at i tr) = m"
      by auto
    from res have stopped: "stop (result s1)" by (simp add: stopped_with_def)
    with sw r1 Cons.prems(1) have "r = Inr ()" "s' = s1" by simp_all
    with True tr n res show ?thesis
      by (intro exI [of _ tr]) (simp add: stopped_with_def)
  next
    case False
    with Cons.prems(3) have later: "Suc i \<le> k" by simp
    from stage_while_invocations [OF sw Cons.prems(2)] False obtain tr1 where
      t1: "trace s1 = trace s @ tr1" and ma1: "message_actions s1 \<noteq> None"
      and none: "invocations_at k tr1 = 0"
      by auto
    show ?thesis
    proof (cases "\<exists>u. r1 = Inr u \<and> \<not> stop (result s1)")
      case False
      with sw Cons.prems(1) have "s' = s1" by (cases r1) auto
      with t1 none show ?thesis by (intro exI [of _ tr1]) simp
    next
      case True
      with sw Cons.prems(1) have run': "for_stages P (Suc i) rest s1 = (r, s')" by auto
      have at: "(st # rest) ! (k - i) = rest ! (k - Suc i)"
        using later by (simp add: nth_Cons' Suc_diff_Suc)
      have k': "k < Suc i + length rest" using Cons.prems(4) by simp
      from Cons.IH [OF run' ma1 later k' Cons.prems(5-8) [unfolded at]] obtain tr2 where
        t2: "trace s' = trace s1 @ tr2"
        and out: "1 \<le> invocations_at k tr2 \<longrightarrow>
           int (invocations_at k tr2) = m \<and> r = Inr () \<and> stop (result s')
           \<and> errorStage (result s') = Some (stageName_of (rest ! (k - Suc i)))
           \<and> error (result s') \<noteq> None"
        by blast
      with t1 none at show ?thesis
        by (intro exI [of _ "tr1 @ tr2"]) simp
    qed
  qed
qed

lemma process_retry:
  assumes run: "process P s = (r, s')" and fresh: "trace s = []"
    and eh: "errorHandler P = Some eh" and k: "k < length (stages P)"
    and str: "recoveryStrategies eh (stageName_of (stages P ! k)) = Some str"
      "strategy str = ''retry''" "maxRetries str = Some m" and m: "1 \<le> m"
    and throws: "always_throws (stages P ! k)"
    and reached: "1 \<le> invocations_at k (trace s')"
  shows "int (invocations_at k (trace s')) = m
    \<and> (\<exists>res. r = Inr res \<and> stop res \<and> errorStage res = Some (stageName_of (stages P ! k))
            \<and> error res \<noteq> None)"
proof -
  from process_shape [OF run] obtain s1 s2 rf L0 where q0: "list_all quiet L0"
    and t1: "trace s1 = trace s @ hook_tr P ''before:pipeline'' P_message L0"
    and ma1: "message_actions s1 \<noteq> None"
    and fs: "for_stages P 0 (stages P) s1 = (rf, s2)"
    and fin: "(\<exists>e. rf = Inl e \<and> r = Inl e \<and> s' = s2)
       \<or> (rf = Inr () \<and> r = Inr (result s2) \<and> result s' = result s2
          \<and> (\<exists>L1. list_all quiet L1
               \<and> trace s' = trace s2 @ hook_tr P ''after:pipeline'' (P_result (result s2)) L1))"
    by blast
  have k': "k < 0 + length (stages P)" using k by simp
  from for_stages_retry [OF eh m fs ma1 _ k', of str] str throws obtain tr where
    t2: "trace s2 = trace s1 @ tr"
    and out: "1 \<le> invocations_at k tr \<longrightarrow>
           int (invocations_at k tr) = m \<and> rf = Inr () \<and> stop (result s2)
           \<and> errorStage (result s2) = Some (stageName_of (stages P ! k))
           \<and> error (result s2) \<noteq> None"
    by auto
  have same: "invocations_at k (trace s') = invocations_at k tr"
    using fin t1 t2 fresh q0 by (auto simp: invocations_at_hook_tr)
  with reached out have n: "int (invocations_at k tr) = m" and rf: "rf = Inr ()"
    and res: "stop (result s2)" "errorStage (result s2) = Some (stageName_of (stages P ! k))"
      "error (result s2) \<noteq> None"
    by simp_all
  from fin rf have "r = Inr (result s2)" by auto
  with n same res show ?thesis by simp
qed

text \<open>
  C2, as the code has it.  The first call of a stage comes before anything is compared
  with \<^verbatim>\<open>maxAttempts\<close> (\<^verbatim>\<open>maxRetries\<close> of the stage's strategy, 3 when there is none),
  and a retry goes on only while the number of failed attempts is below it.  In every run:
  the stage at place \<open>k\<close> is called at most \<^verbatim>\<open>maxAttempts\<close> times when that is 1 or
  more, and at most once when it is less; the stages that are called at all are the first of
  the list, the first stage always among them and all of them when the run returns without
  a stop, so that a stage the run gets to is called once even when \<^verbatim>\<open>maxAttempts\<close> is 0 or
  less.  When a stage, at any place, has the strategy \<open>retry\<close> with \<^verbatim>\<open>maxRetries = m\<close>,
  1 or more, and throws an error on every call, then, once the run gets to it, it is called
  exactly \<open>m\<close> times, and the run returns a result with \<open>stop\<close> set and the stage's name
  as \<open>errorStage\<close>.
\<close>

theorem retry_budget:
  assumes run: "process P s = (r, s')" and fresh: "trace s = []"
  shows "(\<forall>k<length (stages P).
            int (invocations_at k (trace s'))
              \<le> max 1 (maxAttempts_of P (stageName_of (stages P ! k))))
    \<and> (stages P \<noteq> [] \<longrightarrow> 1 \<le> invocations_at 0 (trace s'))
    \<and> (\<forall>k. 1 \<le> invocations_at (Suc k) (trace s') \<longrightarrow> 1 \<le> invocations_at k (trace s'))
    \<and> (\<forall>res. r = Inr res \<and> \<not> stop res \<longrightarrow>
          (\<forall>k<length (stages P). 1 \<le> invocations_at k (trace s')))
    \<and> (\<forall>k<length (stages P).
          1 \<le> invocations_at k (trace s')
          \<and> maxAttempts_of P (stageName_of (stages P ! k)) \<le> 0 \<longrightarrow>
          invocations_at k (trace s') = 1)
    \<and> (\<forall>k eh str m.
          k < length (stages P) \<and> errorHandler P = Some eh
          \<and> recoveryStrategies eh (stageName_of (stages P ! k)) = Some str
          \<and> strategy str = ''retry'' \<and> maxRetries str = Some m \<and> 1 \<le> m
          \<and> always_throws (stages P ! k) \<and> 1 \<le> invocations_at k (trace s') \<longrightarrow>
          int (invocations_at k (trace s')) = m
          \<and> (\<exists>res. r = Inr res \<and> stop res
                  \<and> errorStage res = Some (stageName_of (stages P ! k)) \<and> error res \<noteq> None))"
proof -
  from process_reach [OF run fresh] obtain p where p: "stages P \<noteq> [] \<longrightarrow> 1 \<le> p"
    and calls: "\<And>k. 1 \<le> invocations_at k (trace s') \<longleftrightarrow> k < p"
    and full: "\<And>res. r = Inr res \<Longrightarrow> \<not> stop res \<Longrightarrow> p = length (stages P)"
    by blast
  have 1: "\<forall>k<length (stages P).
            int (invocations_at k (trace s'))
              \<le> max 1 (maxAttempts_of P (stageName_of (stages P ! k)))"
    using process_invocations [OF run fresh] by blast
  have 2: "stages P \<noteq> [] \<longrightarrow> 1 \<le> invocations_at 0 (trace s')"
    using p calls [of 0] by auto
  have 3: "\<forall>k. 1 \<le> invocations_at (Suc k) (trace s') \<longrightarrow> 1 \<le> invocations_at k (trace s')"
    using calls by (simp add: Suc_lessD)
  have 4: "\<forall>res. r = Inr res \<and> \<not> stop res \<longrightarrow>
          (\<forall>k<length (stages P). 1 \<le> invocations_at k (trace s'))"
    using calls full by auto
  have 5: "\<forall>k eh str m.
          k < length (stages P) \<and> errorHandler P = Some eh
          \<and> recoveryStrategies eh (stageName_of (stages P ! k)) = Some str
          \<and> strategy str = ''retry'' \<and> maxRetries str = Some m \<and> 1 \<le> m
          \<and> always_throws (stages P ! k) \<and> 1 \<le> invocations_at k (trace s') \<longrightarrow>
          int (invocations_at k (trace s')) = m
          \<and> (\<exists>res. r = Inr res \<and> stop res
                  \<and> errorStage res = Some (stageName_of (stages P ! k)) \<and> error res \<noteq> None)"
    using process_retry [OF run fresh] by blast
  have 6: "\<forall>k<length (stages P).
          1 \<le> invocations_at k (trace s')
          \<and> maxAttempts_of P (stageName_of (stages P ! k)) \<le> 0 \<longrightarrow>
          invocations_at k (trace s') = 1"
  proof (intro allI impI)
    fix k
    assume k: "k < length (stages P)"
      and "1 \<le> invocations_at k (trace s')
          \<and> maxAttempts_of P (stageName_of (stages P ! k)) \<le> 0"
    with 1 show "invocations_at k (trace s') = 1" by fastforce
  qed
  from 1 2 3 4 6 5 show ?thesis by (intro conjI)
qed

text \<open>
  \<open>flakey\<close>, with \<^verbatim>\<open>maxRetries: 3\<close> and \<^verbatim>\<open>backoffMs: 0\<close>, behind a stage that returns:
  the first stage is called once and \<open>flakey\<close> three times, and the run stops with
  \<open>flakey\<close> as \<open>errorStage\<close>.
\<close>

theorem retry_budget_witness:
  "always_throws (throwing ''flakey'' ''flake'')
   \<and> stages retrying_later ! 1 = throwing ''flakey'' ''flake''
   \<and> maxAttempts_of retrying_later ''flakey'' = 3
   \<and> map (\<lambda>k. invocations_at k (trace (snd (process retrying_later (fresh 0))))) [0, 1] = [1, 3]
   \<and> world (snd (process retrying_later (fresh 0))) = 4
   \<and> fst (process retrying_later (fresh 0)) =
       Inr \<lparr>stop = True, metadata = [], actions = [],
            error = Some (ErrorObj ''Error'' VUndefined ''flake''), errorStage = Some ''flakey''\<rparr>"
proof -
  let ?str = "\<lparr>strategy = ''retry'', maxRetries = Some 3, backoffMs = Some 0\<rparr>"
  let ?eh = "new_ErrorHandler\<lparr>recoveryStrategies := [''flakey'' \<mapsto> ?str]\<rparr> :: nat ErrorHandler"
  obtain r s' where run: "process retrying_later (fresh 0) = (r, s')" by fastforce
  have ev: "r = Inr \<lparr>stop = True, metadata = [], actions = [],
            error = Some (ErrorObj ''Error'' VUndefined ''flake''), errorStage = Some ''flakey''\<rparr>
      \<and> world s' = 4 \<and> Invoke 1 ''flakey'' \<in> set (trace s')
      \<and> invocations_at 0 (trace s') = 1"
    using run by (auto simp: ex_defs js_defs eh_defs pl_defs invocations_at_def)
  have fresh: "trace (fresh (0::nat)) = []" by (simp add: fresh_def)
  have throws: "always_throws (throwing ''flakey'' ''flake'')"
    by (simp add: always_throws_def throwing_def)
  have conf: "errorHandler retrying_later = Some ?eh"
      "stages retrying_later = [returning ''ok'' VUndefined, throwing ''flakey'' ''flake'']"
    by (simp_all add: ex_defs registerRecoveryStrategy_def assign_def new_ErrorHandler_registry)
  have at: "stages retrying_later ! 1 = throwing ''flakey'' ''flake''"
      "stages retrying_later ! 0 = returning ''ok'' VUndefined"
      "length (stages retrying_later) = 2"
    by (simp_all add: conf)
  have str: "recoveryStrategies ?eh (stageName_of (throwing ''flakey'' ''flake'')) = Some ?str"
      "strategy ?str = ''retry''" "maxRetries ?str = Some 3"
    by (simp_all add: stageName_of_def throwing_def)
  have M: "maxAttempts_of retrying_later ''flakey'' = 3"
      "maxAttempts_of retrying_later ''ok'' = 3"
    by (simp_all add: maxAttempts_of_def conf lookup_def Object_prototype_def)
  have reached: "1 \<le> invocations_at 1 (trace s')"
  proof -
    from ev have "filter (invoked_at 1) (trace s') \<noteq> []"
      by (auto simp: filter_empty_conv intro!: bexI [of _ "Invoke 1 ''flakey''"])
    then show ?thesis by (simp add: invocations_at_def Suc_le_eq)
  qed
  note budget = retry_budget [OF run fresh]
  from budget [THEN conjunct2, THEN conjunct2, THEN conjunct2, THEN conjunct2, THEN conjunct2,
      rule_format, of 1 ?eh ?str 3] conf at str throws reached
  have three: "int (invocations_at 1 (trace s')) = 3" by simp
  from ev throws at M three show ?thesis using run by simp
qed

text \<open>
  With \<^verbatim>\<open>maxRetries: 0\<close> the variable \<^verbatim>\<open>maxAttempts\<close> of \<open>process\<close> is 0, and the stage
  is called once.
\<close>

theorem retry_budget_counterexample:
  "maxAttempts_of (retrying (Some 0)) ''flakey'' = 0
   \<and> int (invocations_at 0 (trace (snd (process (retrying (Some 0)) (fresh 0))))) = 1
   \<and> \<not> int (invocations_at 0 (trace (snd (process (retrying (Some 0)) (fresh 0)))))
          \<le> maxAttempts_of (retrying (Some 0)) ''flakey''"
proof -
  obtain r s' where run: "process (retrying (Some 0)) (fresh 0) = (r, s')" by fastforce
  have "invocations_at 0 (trace s') = 1"
    using run by (auto simp: ex_defs js_defs eh_defs pl_defs invocations_at_def)
  moreover have "maxAttempts_of (retrying (Some 0)) ''flakey'' = 0"
    by (simp add: ex_defs registerRecoveryStrategy_def assign_def new_ErrorHandler_registry
        maxAttempts_of_def)
  ultimately show ?thesis using run by simp
qed

section \<open>Pipeline: where a stage's error goes\<close>

lemma call_handler_answers:
  assumes ok: "handlers_answer eh" and h: "errorHandlers eh k' = Some h"
    and run: "call_handler eh h (ErrorObj k c m) n a s = (r, s')"
  shows "\<exists>v. r = Inr v \<and> v \<noteq> VUndefined \<and> v \<noteq> VNull"
proof (cases h)
  case HandleStageError
  with run handleStageError_spec [of eh "ErrorObj k c m" n a s r s'] show ?thesis
    by (auto simp: call_handler_def)
next
  case HandleDatabaseError
  with run show ?thesis
    by (auto simp: call_handler_def handleDatabaseError_def ret_def recovery_def split: if_splits)
next
  case HandleValidationError
  with run show ?thesis
    by (auto simp: call_handler_def handleValidationError_def ret_def recovery_def)
next
  case (Custom f)
  from ok h Custom obtain v w' where "f (ErrorObj k c m) n a (world s) = (Inr v, w')"
    "v \<noteq> VUndefined" "v \<noteq> VNull"
    unfolding handlers_answer_def by blast
  with run Custom show ?thesis
    by (auto simp: call_handler_def run_user_def)
qed

lemma handle_answers:
  assumes ok: "handlers_answer eh"
    and known: "lookup (recoveryStrategies eh) n \<noteq> Absent
      \<or> (\<forall>member. lookup (errorHandlers eh) k \<noteq> Inherited member)"
    and run: "handle eh (ErrorObj k c m) n a s = (r, s')"
  shows "\<exists>v. r = Inr v \<and> v \<noteq> VUndefined \<and> v \<noteq> VNull"
proof (cases "lookup (recoveryStrategies eh) n = Absent")
  case False
  with run have "handleStageError eh (ErrorObj k c m) n a (counted k n s) = (r, s')"
    by (simp add: handle_found)
  from handleStageError_spec [OF this] show ?thesis by blast
next
  case True
  note dispatch = handle_Absent [OF True, of k c m a s]
  show ?thesis
  proof (cases "lookup (errorHandlers eh) k")
    case (Own h)
    with run dispatch have "call_handler eh h (ErrorObj k c m) n a (counted k n s) = (r, s')"
      by simp
    moreover from Own have "errorHandlers eh k = Some h" by (simp add: lookup_Own_iff)
    ultimately show ?thesis using call_handler_answers [OF ok] by blast
  next
    case (Inherited member)
    with known True show ?thesis by simp
  next
    case Absent
    with run dispatch show ?thesis
      by (auto simp: handleUnknownError_def ret_def recovery_def)
  qed
qed

lemma resolvable_handled:
  assumes "resolvable P st err" and "errorHandler P = Some eh"
  shows "\<exists>k c m. err = ErrorObj k c m
     \<and> (lookup (recoveryStrategies eh) (stageName_of st) \<noteq> Absent
        \<or> (\<forall>member. lookup (errorHandlers eh) k \<noteq> Inherited member))"
  using assms by (auto simp: resolvable_def split: thrown.splits property.splits)

lemma catch_stage_returns:
  assumes ok: "\<And>eh. errorHandler P = Some eh \<Longrightarrow> handlers_answer eh"
    and res: "resolvable P st err"
    and run: "catch_stage P st a err s = (r, s')"
  shows "\<exists>x. r = Inr x"
proof -
  let ?n = "stageName_of st"
  from emit_hook_spec [of P "''error:stage''" "P_stage_error ?n err" s] obtain L2 s1 where
    e1: "emit_hook P ''error:stage'' (P_stage_error ?n err) s = (Inr (), s1)"
    by blast
  show ?thesis
  proof (cases "errorHandler P")
    case None
    with run e1 show ?thesis by (auto simp: catch_stage_def Let_def bind_def ret_def)
  next
    case (Some eh)
    from resolvable_handled [OF res Some] obtain k c m where err: "err = ErrorObj k c m"
      and known: "lookup (recoveryStrategies eh) ?n \<noteq> Absent
        \<or> (\<forall>member. lookup (errorHandlers eh) k \<noteq> Inherited member)"
      by blast
    obtain r2 s2 where h2: "handle eh err ?n (Some (a + 1)) s1 = (r2, s2)" by fastforce
    from handle_answers [OF ok [OF Some] known h2 [unfolded err]] obtain v where
      v: "r2 = Inr v" "v \<noteq> VUndefined" "v \<noteq> VNull"
      by blast
    then have gp: "get_prop v ''action'' s2 = (Inr (opt_chain v ''action''), s2)"
      by (simp add: get_prop_def ret_def)
    from run e1 Some h2 v(1) gp show ?thesis
      by (auto simp: catch_stage_def Let_def bind_def ret_def stop_with_error_def
            modify_def split: if_splits)
  qed
qed

lemma loop_body_returns:
  assumes ok: "\<And>eh. errorHandler P = Some eh \<Longrightarrow> handlers_answer eh"
    and objs: "throws_resolvable P st"
    and run: "loop_body P i st a s = (r, s')" and ma: "message_actions s \<noteq> None"
  shows "\<exists>x. r = Inr x"
proof -
  obtain r1 s1 where t1: "try_stage P i st s = (r1, s1)" by fastforce
  show ?thesis
  proof (cases r1)
    case (Inr u)
    with run t1 show ?thesis by (auto simp: loop_body_def try_catch_def bind_def ret_def)
  next
    case (Inl e)
    with try_stage_spec [OF t1 ma] have "\<exists>w w'. call st w = (Inl e, w')" by auto
    with objs have res: "resolvable P st e"
      unfolding throws_resolvable_def by blast
    from run t1 Inl have "catch_stage P st a e s1 = (r, s')"
      by (simp add: loop_body_def try_catch_def bind_def)
    from catch_stage_returns [OF ok res this] show ?thesis .
  qed
qed

lemma stage_while_returns:
  assumes ok: "\<And>eh. errorHandler P = Some eh \<Longrightarrow> handlers_answer eh"
    and objs: "throws_resolvable P st"
  shows "stage_while P i st ac s = (r, s') \<Longrightarrow> message_actions s \<noteq> None \<Longrightarrow> r = Inr ()"
  using assms
proof (induction P i st ac s rule: stage_while.induct)
  case (1 P i st attempt s)
  then show ?case by simp
next
  case (2 P i st attempt s)
  obtain r1 s1 where lb: "loop_body P i st attempt s = (r1, s1)" by fastforce
  from loop_body_returns [OF "2.prems"(3,4) lb "2.prems"(2)] obtain vars where r1: "r1 = Inr vars"
    by blast
  from loop_body_spec [OF lb "2.prems"(2)] have ma1: "message_actions s1 \<noteq> None" by blast
  from lb r1 "2.prems"(1) have "stage_while P i st vars s1 = (r, s')" by simp
  from "2.IH" [OF lb [symmetric] r1 this ma1 "2.prems"(3,4)] show ?case .
qed

lemma for_stages_returns:
  assumes ok: "\<And>eh. errorHandler P = Some eh \<Longrightarrow> handlers_answer eh"
  shows "for_stages P i sts s = (r, s') \<Longrightarrow> message_actions s \<noteq> None \<Longrightarrow>
    list_all (throws_resolvable P) sts \<Longrightarrow> r = Inr ()"
proof (induction sts arbitrary: i s)
  case Nil
  then show ?case by simp
next
  case (Cons st rest)
  obtain r1 s1 where sw: "stage_while P i st (0, False) s = (r1, s1)" by fastforce
  from Cons.prems(3) have objs: "throws_resolvable P st" "list_all (throws_resolvable P) rest"
    by simp_all
  from stage_while_returns [OF ok objs(1) sw Cons.prems(2)] have r1: "r1 = Inr ()" .
  from stage_while_invocations [OF sw Cons.prems(2)] have ma1: "message_actions s1 \<noteq> None"
    by blast
  show ?case
  proof (cases "stop (result s1)")
    case True
    with sw r1 Cons.prems(1) show ?thesis by simp
  next
    case False
    with sw r1 Cons.prems(1) have "for_stages P (Suc i) rest s1 = (r, s')" by simp
    from Cons.IH [OF this ma1 objs(2)] show ?thesis .
  qed
qed

lemma error_inv_step:
  assumes inv: "error_inv s" and ma: "message_actions s \<noteq> None"
    and run: "loop_body P j st a s = (r, s')"
  shows "error_inv s'"
proof -
  let ?n = "stageName_of st"
  from loop_body_spec [OF run ma] consider
    (returned) v tr where "trace s' = trace s @ tr" "returned_effect v s s'"
    | (threw) e tr where "thrown_turn P j ?n e tr" "trace s' = trace s @ tr"
      "result s' = result s \<or> result s' = stopped_with e ?n (result s)"
    by blast
  then show ?thesis
  proof cases
    case returned
    from returned(2) have "error (result s') = error (result s)"
      "errorStage (result s') = errorStage (result s)"
      "stop (result s) \<longrightarrow> stop (result s')"
      by (auto simp: returned_effect_def verdict_kept_def split: if_splits)
    with inv returned(1) show ?thesis
      unfolding error_inv_def by auto
  next
    case threw
    from threw(3) show ?thesis
    proof
      assume "result s' = result s"
      with inv threw(2) show ?thesis unfolding error_inv_def by auto
    next
      assume "result s' = stopped_with e ?n (result s)"
      moreover have "Throw j ?n e \<in> set (trace s')"
        using threw(2) thrown_turn_calls(3) [OF threw(1)] by simp
      ultimately show ?thesis
        unfolding error_inv_def by (auto simp: stopped_with_def)
    qed
  qed
qed

text \<open>
  C4, as the code has it.  A stage's error does not leave \<open>process\<close> when no error
  handler is attached (the stage is skipped), or when the thrown value is an error object
  that the error handler resolves through a registered strategy, a registered handler of
  its kind or \<open>handleUnknownError\<close>, every handler that user code registered for an error
  kind returning an object (none throws).  \<open>process\<close> then returns normally, and the
  error shows in the result only: \<open>error\<close> is set together with \<open>stop\<close> and with
  \<open>errorStage\<close>, the name of the stage that threw it.  (\<open>handle\<close> passes on what a
  handler of user code throws, and \<open>process\<close> does not catch it: see the counterexample.)
\<close>

theorem stage_errors_contained:
  assumes run: "process P s = (r, s')" and fresh: "trace s = []"
    and objs: "list_all (throws_resolvable P) (stages P)"
    and ok: "\<forall>eh. errorHandler P = Some eh \<longrightarrow> handlers_answer eh"
  shows "\<exists>res. r = Inr res
    \<and> (\<forall>e. error res = Some e \<longrightarrow>
          stop res \<and> (\<exists>i n. errorStage res = Some n \<and> Throw i n e \<in> set (trace s')))
    \<and> (error res = None \<longleftrightarrow> errorStage res = None)"
proof -
  from process_shape [OF run] obtain s1 s2 rf L0 where q0: "list_all quiet L0"
    and t1: "trace s1 = trace s @ hook_tr P ''before:pipeline'' P_message L0"
    and ma1: "message_actions s1 \<noteq> None" and res1: "result s1 = initial_result"
    and fs: "for_stages P 0 (stages P) s1 = (rf, s2)"
    and fin: "(\<exists>e. rf = Inl e \<and> r = Inl e \<and> s' = s2)
       \<or> (rf = Inr () \<and> r = Inr (result s2) \<and> result s' = result s2
          \<and> (\<exists>L1. list_all quiet L1
               \<and> trace s' = trace s2 @ hook_tr P ''after:pipeline'' (P_result (result s2)) L1))"
    by blast
  from ok have ok': "\<And>eh. errorHandler P = Some eh \<Longrightarrow> handlers_answer eh" by blast
  from for_stages_returns [OF ok' fs ma1 objs] have rf: "rf = Inr ()" .
  from fin rf obtain L1 where r: "r = Inr (result s2)"
    and t2: "trace s' = trace s2 @ hook_tr P ''after:pipeline'' (P_result (result s2)) L1"
    by blast
  have ns1: "\<not> stop (result s1)"
    using res1 by (simp add: initial_result_def)
  have I1: "error_inv s1"
    using res1 by (simp add: initial_result_def error_inv_def)
  have "(\<exists>j::nat. error_inv s2) \<and> message_actions s2 \<noteq> None
      \<and> (\<forall>e. rf = Inl e \<longrightarrow> \<not> stop (result s2))"
  proof (rule for_stages_rule [where I = "\<lambda>j. error_inv", OF fs I1 ns1 ma1])
    fix j a s r s'
    assume "error_inv s" "message_actions s \<noteq> None"
      "loop_body P (0 + j) (stages P ! j) a s = (r, s')"
    then show "error_inv s'" by (rule error_inv_step)
  next
    fix j :: nat and s :: "'a state"
    assume "error_inv s"
    then show "error_inv s" .
  qed
  then have I2: "error_inv s2" by blast
  have sub: "set (trace s2) \<subseteq> set (trace s')" using t2 by simp
  have a: "stop (result s2) \<and> (\<exists>i n. errorStage (result s2) = Some n \<and> Throw i n e \<in> set (trace s'))"
    if "error (result s2) = Some e" for e
  proof -
    from I2 that obtain i n where "stop (result s2)" "errorStage (result s2) = Some n"
      "Throw i n e \<in> set (trace s2)"
      unfolding error_inv_def by blast
    with sub show ?thesis by blast
  qed
  have b: "error (result s2) = None \<longleftrightarrow> errorStage (result s2) = None"
    using I2 by (simp add: error_inv_def)
  have c: "\<forall>e. error (result s2) = Some e \<longrightarrow>
          stop (result s2)
          \<and> (\<exists>i n. errorStage (result s2) = Some n \<and> Throw i n e \<in> set (trace s'))"
    by (intro allI impI) (rule a)
  show ?thesis
    by (rule exI [of _ "result s2"]) (intro conjI r c b)
qed

text \<open>
  A stage that throws an \<open>Error\<close>, and a handler of user code registered for that kind
  which answers \<open>stop\<close>: the run returns, stopped, with the error and the stage's name in
  the result.
\<close>

theorem stage_errors_contained_witness:
  "list_all (throws_resolvable custom_boom) (stages custom_boom)
   \<and> (\<exists>eh. errorHandler custom_boom = Some eh \<and> errorHandlers eh ''Error'' = Some answering_handler
          \<and> handlers_answer eh)
   \<and> fst (process custom_boom (fresh 0)) =
       Inr \<lparr>stop = True, metadata = [], actions = [],
            error = Some (ErrorObj ''Error'' VUndefined ''x''), errorStage = Some ''boom''\<rparr>"
proof -
  let ?eh = "new_ErrorHandler\<lparr>errorHandlers := (errorHandlers new_ErrorHandler)
      (''Error'' \<mapsto> answering_handler)\<rparr> :: nat ErrorHandler"
  obtain r s' where run: "process custom_boom (fresh 0) = (r, s')" by fastforce
  have ev: "r = Inr \<lparr>stop = True, metadata = [], actions = [],
            error = Some (ErrorObj ''Error'' VUndefined ''x''), errorStage = Some ''boom''\<rparr>"
    using run by (auto simp: ex_defs js_defs eh_defs pl_defs)
  have fresh: "trace (fresh (0::nat)) = []" by (simp add: fresh_def)
  have eh: "errorHandler custom_boom = Some ?eh"
    by (simp add: ex_defs registerErrorHandler_def assign_def)
  have objs: "list_all (throws_resolvable custom_boom) (stages custom_boom)"
    unfolding eh throws_resolvable_def resolvable_def
    by (auto simp: custom_boom_def pipeline_of_def throwing_def eh [unfolded custom_boom_def pipeline_of_def, simplified]
          stageName_of_def new_ErrorHandler_registry lookup_def Object_prototype_def)
  have ans: "handlers_answer ?eh"
    by (auto simp: handlers_answer_def new_ErrorHandler_registry answering_handler_def recovery_def
          split: if_splits)
  then have ok: "\<forall>eh. errorHandler custom_boom = Some eh \<longrightarrow> handlers_answer eh"
    by (simp add: eh)
  have reg: "errorHandlers ?eh ''Error'' = Some answering_handler" by simp
  from stage_errors_contained [OF run fresh objs ok] ev objs ans reg eh show ?thesis
    using run by auto
qed

text \<open>
  A handler of user code that throws: \<open>handle\<close> passes its exception on, and \<open>process\<close>
  throws the stage's error to its caller.
\<close>

theorem stage_errors_contained_counterexample:
  "fst (process unhandled_boom (fresh 0)) = Inl (ErrorObj ''Error'' VUndefined ''x'')"
proof -
  obtain r s' where run: "process unhandled_boom (fresh 0) = (r, s')" by fastforce
  have "r = Inl (ErrorObj ''Error'' VUndefined ''x'')"
    using run by (auto simp: ex_defs js_defs eh_defs pl_defs)
  then show ?thesis using run by simp
qed

section \<open>Pipeline: stages without a name\<close>

lemma loop_body_same_stage:
  assumes "stageName_of st' = stageName_of st" and "call st' = call st"
  shows "loop_body P i st' = loop_body P i st"
proof (rule ext)
  fix a
  show "loop_body P i st' a = loop_body P i st a"
    by (simp add: loop_body_def try_stage_def catch_stage_def call_stage_def assms)
qed

lemma stage_while_same_stage:
  assumes "stageName_of st' = stageName_of st" and "call st' = call st"
  shows "stage_while P i st' ac s = stage_while P i st ac s"
  using assms
proof (induction P i st ac s rule: stage_while.induct)
  case (1 P i st attempt s)
  show ?case by simp
next
  case (2 P i st attempt s)
  have lb: "loop_body P i st' attempt s = loop_body P i st attempt s"
    using loop_body_same_stage [OF "2.prems"] by simp
  show ?case
  proof (cases "loop_body P i st attempt s")
    case (Pair r1 s1)
    show ?thesis
    proof (cases r1)
      case (Inl e)
      with Pair lb show ?thesis by simp
    next
      case (Inr vars)
      from "2.IH" [OF Pair [symmetric] Inr "2.prems"] Pair Inr lb show ?thesis by simp
    qed
  qed
qed

lemma anonymous_named_same:
  "stageName_of (anonymous_named st) = stageName_of st" "call (anonymous_named st) = call st"
  by (simp_all add: anonymous_named_def stageName_of_def)

lemma for_stages_anonymous:
  "for_stages P i (map anonymous_named sts) s = for_stages P i sts s"
proof (induction sts arbitrary: i s)
  case Nil
  show ?case by simp
next
  case (Cons st rest)
  have "stage_while P i (anonymous_named st) (0, False) s = stage_while P i st (0, False) s"
    by (rule stage_while_same_stage) (rule anonymous_named_same)+
  with Cons.IH show ?case
    by (simp del: stage_while.simps split: prod.splits sum.splits)
qed

lemma parts_stages_irrelevant:
  "emit_hook (P\<lparr>stages := x\<rparr>) = emit_hook P"
  "collect_action (P\<lparr>stages := x\<rparr>) = collect_action P"
  "maxAttempts_of (P\<lparr>stages := x\<rparr>) = maxAttempts_of P"
  by (simp_all add: fun_eq_iff emit_hook_def collect_action_def maxAttempts_of_def)

lemma loop_body_stages_irrelevant:
  "loop_body (P\<lparr>stages := x\<rparr>) i st = loop_body P i st"
proof (rule ext)
  fix a
  have "try_stage (P\<lparr>stages := x\<rparr>) i st = try_stage P i st"
    unfolding try_stage_def parts_stages_irrelevant ..
  moreover have "catch_stage (P\<lparr>stages := x\<rparr>) st a = catch_stage P st a"
    by (rule ext) (simp add: catch_stage_def parts_stages_irrelevant)
  ultimately show "loop_body (P\<lparr>stages := x\<rparr>) i st a = loop_body P i st a"
    by (simp add: loop_body_def)
qed

lemma stage_while_stages_irrelevant:
  "stage_while (P\<lparr>stages := x\<rparr>) i st ac s = stage_while P i st ac s"
proof (induction P i st ac s rule: stage_while.induct)
  case (1 P i st attempt s)
  show ?case by simp
next
  case (2 P i st attempt s)
  have lb: "loop_body (P\<lparr>stages := x\<rparr>) i st attempt s = loop_body P i st attempt s"
    by (simp add: loop_body_stages_irrelevant)
  show ?case
  proof (cases "loop_body P i st attempt s")
    case (Pair r1 s1)
    show ?thesis
    proof (cases r1)
      case (Inl e)
      with Pair lb show ?thesis by simp
    next
      case (Inr vars)
      from "2.IH" [OF Pair [symmetric] Inr] Pair Inr lb show ?thesis by simp
    qed
  qed
qed

lemma for_stages_stages_irrelevant:
  "for_stages (P\<lparr>stages := x\<rparr>) i sts s = for_stages P i sts s"
  by (induction sts arbitrary: i s)
     (simp_all add: stage_while_stages_irrelevant del: stage_while.simps
        split: prod.splits sum.splits)

text \<open>The calls of a run are calls of the stages of the pipeline, under their stage names.\<close>

lemma process_calls_named:
  assumes run: "process P s = (r, s')" and fresh: "trace s = []"
    and call: "Invoke k m \<in> set (trace s')"
  shows "k < length (stages P) \<and> m = stageName_of (stages P ! k)"
proof -
  from process_shape [OF run] obtain s1 s2 rf L0 where q0: "list_all quiet L0"
    and t1: "trace s1 = trace s @ hook_tr P ''before:pipeline'' P_message L0"
    and ma1: "message_actions s1 \<noteq> None" and res1: "result s1 = initial_result"
    and fs: "for_stages P 0 (stages P) s1 = (rf, s2)"
    and fin: "(\<exists>e. rf = Inl e \<and> r = Inl e \<and> s' = s2)
       \<or> (rf = Inr () \<and> r = Inr (result s2) \<and> result s' = result s2
          \<and> (\<exists>L1. list_all quiet L1
               \<and> trace s' = trace s2 @ hook_tr P ''after:pipeline'' (P_result (result s2)) L1))"
    by blast
  have ns1: "\<not> stop (result s1)" using res1 by (simp add: initial_result_def)
  have I1: "stop_inv P 0 s1"
    unfolding stop_inv_def using t1 fresh res1
    by (simp add: initial_result_def hook_tr_not_call [OF q0])
  have "(\<exists>j. stop_inv P j s2) \<and> message_actions s2 \<noteq> None
      \<and> (\<forall>e. rf = Inl e \<longrightarrow> \<not> stop (result s2))"
  proof (rule for_stages_rule [where I = "stop_inv P", OF fs I1 ns1 ma1])
    fix j a s r s'
    assume "j < length (stages P)" "stop_inv P (0 + j) s" "\<not> stop (result s)"
      "message_actions s \<noteq> None" "loop_body P (0 + j) (stages P ! j) a s = (r, s')"
    then show "stop_inv P (0 + j) s'"
      using stop_inv_step [of P j s a r s'] by simp
  next
    fix j s
    assume "stop_inv P j s" "\<not> stop (result s)"
    then show "stop_inv P (Suc j) s"
      unfolding stop_inv_def by (meson le_Suc_eq)
  qed
  then obtain j where I2: "stop_inv P j s2" by blast
  have "Invoke k m \<in> set (trace s2)"
    using fin call by (auto simp: hook_tr_not_call)
  with I2 show ?thesis unfolding stop_inv_def by blast
qed

text \<open>
  C10.  A stage whose \<^verbatim>\<open>name\<close> is empty is processed under the stage name \<open>anonymous\<close>.
  \<open>inspect\<close> lists the name \<open>anonymous\<close> at the place of every stage without a name;
  in every run the calls of such a stage carry the name \<open>anonymous\<close>; and nothing else of
  the name is read: a pipeline runs, and is inspected, exactly as the pipeline in which every
  stage without a name is named \<open>anonymous\<close>, so that the recovery strategy looked up, the
  hook payloads and the key of the error statistics are those of a stage named \<open>anonymous\<close>,
  the same for every stage without a name.
\<close>

theorem unnamed_stage_is_anonymous:
  "length (stage_names (inspect P s)) = length (stages P)
   \<and> (\<forall>i<length (stages P). name (stages P ! i) = [] \<longrightarrow>
        stage_names (inspect P s) ! i = ''anonymous''
        \<and> (\<forall>r s' n. process P s = (r, s') \<and> trace s = [] \<and> Invoke i n \<in> set (trace s') \<longrightarrow>
              n = ''anonymous''))
   \<and> process (P\<lparr>stages := map anonymous_named (stages P)\<rparr>) = process P
   \<and> inspect (P\<lparr>stages := map anonymous_named (stages P)\<rparr>) s = inspect P s"
proof -
  have "length (stage_names (inspect P s)) = length (stages P)"
    by (simp add: inspect_def)
  moreover have "stage_names (inspect P s) ! i = ''anonymous''
        \<and> (\<forall>r s' n. process P s = (r, s') \<and> trace s = [] \<and> Invoke i n \<in> set (trace s') \<longrightarrow>
              n = ''anonymous'')"
    if i: "i < length (stages P)" and unnamed: "name (stages P ! i) = []" for i
  proof -
    have n: "stageName_of (stages P ! i) = ''anonymous''"
      using unnamed by (simp add: stageName_of_def)
    have "stage_names (inspect P s) ! i = ''anonymous''"
      using i n by (simp add: inspect_def)
    moreover have "n = ''anonymous''"
      if "process P s = (r, s')" "trace s = []" "Invoke i n \<in> set (trace s')" for r s' n
      using process_calls_named [OF that] n by simp
    ultimately show ?thesis by blast
  qed
  moreover have "process (P\<lparr>stages := map anonymous_named (stages P)\<rparr>) = process P"
  proof -
    have "for_stages (P\<lparr>stages := map anonymous_named (stages P)\<rparr>) 0
            (map anonymous_named (stages P)) = for_stages P 0 (stages P)"
      by (rule ext) (simp add: for_stages_stages_irrelevant for_stages_anonymous)
    then show ?thesis
      by (simp add: process_def parts_stages_irrelevant)
  qed
  moreover have "inspect (P\<lparr>stages := map anonymous_named (stages P)\<rparr>) s = inspect P s"
    by (simp add: inspect_def anonymous_named_same)
  ultimately show ?thesis by blast
qed

text \<open>
  Two stages without a name that throw, and the strategy \<open>skip\<close> registered for
  \<open>anonymous\<close>: \<open>inspect\<close> lists \<open>anonymous\<close> twice, both stages are called under that
  name and skipped, the hooks are emitted for it twice, and both errors are counted under the
  one key.
\<close>

theorem unnamed_stage_is_anonymous_witness:
  "map name (stages unnamed_pair) = [[], []]
   \<and> stage_names (inspect unnamed_pair (fresh 0)) = [''anonymous'', ''anonymous'']
   \<and> filter (\<lambda>e. \<not> quiet e \<and> e \<noteq> Emit ''before:pipeline'' P_message)
        (butlast (trace (snd (process unnamed_pair (fresh 0))))) =
       [Emit ''before:stage'' (P_stage ''anonymous''), Invoke 0 ''anonymous'',
        Throw 0 ''anonymous'' (ErrorObj ''Error'' VUndefined ''a''),
        Emit ''error:stage'' (P_stage_error ''anonymous'' (ErrorObj ''Error'' VUndefined ''a'')),
        Emit ''before:stage'' (P_stage ''anonymous''), Invoke 1 ''anonymous'',
        Throw 1 ''anonymous'' (ErrorObj ''Error'' VUndefined ''b''),
        Emit ''error:stage'' (P_stage_error ''anonymous'' (ErrorObj ''Error'' VUndefined ''b''))]
   \<and> process (unnamed_pair\<lparr>stages := [throwing ''anonymous'' ''a'', throwing ''anonymous'' ''b'']\<rparr>)
       = process unnamed_pair
   \<and> byStage (errorStats (snd (process unnamed_pair (fresh 0)))) = [''anonymous'' \<mapsto> Count 2]
   \<and> stop (result (snd (process unnamed_pair (fresh 0)))) = False"
proof -
  obtain r s' where run: "process unnamed_pair (fresh 0) = (r, s')" by fastforce
  have ev: "byStage (errorStats s') = [''anonymous'' \<mapsto> Count 2] \<and> stop (result s') = False
      \<and> filter (\<lambda>e. \<not> quiet e \<and> e \<noteq> Emit ''before:pipeline'' P_message) (butlast (trace s')) =
       [Emit ''before:stage'' (P_stage ''anonymous''), Invoke 0 ''anonymous'',
        Throw 0 ''anonymous'' (ErrorObj ''Error'' VUndefined ''a''),
        Emit ''error:stage'' (P_stage_error ''anonymous'' (ErrorObj ''Error'' VUndefined ''a'')),
        Emit ''before:stage'' (P_stage ''anonymous''), Invoke 1 ''anonymous'',
        Throw 1 ''anonymous'' (ErrorObj ''Error'' VUndefined ''b''),
        Emit ''error:stage'' (P_stage_error ''anonymous'' (ErrorObj ''Error'' VUndefined ''b''))]"
    using run by (auto simp: ex_defs js_defs eh_defs pl_defs)
  have names: "map anonymous_named (stages unnamed_pair) =
      [throwing ''anonymous'' ''a'', throwing ''anonymous'' ''b'']"
    by (simp add: ex_defs anonymous_named_def)
  have unnamed: "map name (stages unnamed_pair) = [[], []]"
    by (simp add: ex_defs)
  have len: "length (stages unnamed_pair) = 2" by (simp add: ex_defs)
  have at: "name (stages unnamed_pair ! 0) = []" "name (stages unnamed_pair ! 1) = []"
    by (simp_all add: ex_defs)
  from unnamed_stage_is_anonymous [of unnamed_pair "fresh 0"] len at
  have "stage_names (inspect unnamed_pair (fresh 0)) ! 0 = ''anonymous''"
    "stage_names (inspect unnamed_pair (fresh 0)) ! 1 = ''anonymous''"
    "length (stage_names (inspect unnamed_pair (fresh 0))) = 2"
    "process (unnamed_pair\<lparr>stages := map anonymous_named (stages unnamed_pair)\<rparr>)
       = process unnamed_pair"
    by simp_all
  then have "stage_names (inspect unnamed_pair (fresh 0)) = [''anonymous'', ''anonymous'']"
    "process (unnamed_pair\<lparr>stages := [throwing ''anonymous'' ''a'', throwing ''anonymous'' ''b'']\<rparr>)
       = process unnamed_pair"
    by (simp_all add: names list_eq_iff_nth_eq less_Suc_eq numeral_2_eq_2)
  with ev unnamed show ?thesis using run by simp
qed

end
